theory Spec2Isabelle
  imports Complex_Main "HOL-Library.Multiset"
begin

section \<open>The CUDA polisher of racon (src/cuda/cudapolisher.cpp)\<close>

text \<open>
  The theory embeds the scheduling code of \<^verbatim>\<open>CUDAPolisher\<close>, as built without \<^verbatim>\<open>DEBUG\<close>:
  the two batch fillers, the batch runners, the CPU fallback and the output pass of
  \<^verbatim>\<open>polish\<close>. Values of type \<^verbatim>\<open>uint32_t\<close> are natural numbers, with the reduction
  modulo \<open>2 ^ 32\<close> written where the source truncates, adds or subtracts; \<^verbatim>\<open>uint64_t\<close>
  loop indices run over a vector and cannot wrap. The runners are threads; they are
  interleaved by a schedule, a list of numbers that selects, at each step, which of the
  runners still in their loop moves next (the first one when the list is used up). A step is
  a piece of a runner's code with at most one access to what the runners share: the call of
  \<^verbatim>\<open>fill_next_batch\<close>, whose body holds the mutex; the execution of a batch, which
  touches the batch only; and, in the copy of the results, the read and the write of a
  storage word of the status vector, which no lock protects, so that steps of other runners
  can come between the two. The calls of the logger and of the progress bar are left out;
  the counter that drives the bar is kept.
\<close>

subsection \<open>Errors and machine integers\<close>

text \<open>
  \<^item> \<open>DivisionByZero\<close>: an integer division by zero (undefined behaviour; the process dies);
  \<^item> \<open>OutOfRange\<close>: \<^verbatim>\<open>std::out_of_range\<close> thrown by \<^verbatim>\<open>vector::at\<close>;
  \<^item> \<open>RuntimeError\<close>: the \<^verbatim>\<open>std::runtime_error\<close> of line 254;
  \<^item> \<open>Exit1\<close>: \<^verbatim>\<open>exit(1)\<close> of line 297.
\<close>

datatype error = DivisionByZero | OutOfRange | RuntimeError | Exit1

definition u32 :: "nat \<Rightarrow> nat" where
  "u32 n = n mod 2 ^ 32"

definition sub32 :: "nat \<Rightarrow> nat \<Rightarrow> nat" where
  "sub32 a b = (a + 2 ^ 32 - b) mod 2 ^ 32"

subsection \<open>Batch units\<close>

text \<open>
  Modelled from the spec: the batch unit (\<^verbatim>\<open>CUDABatchProcessor\<close> and \<^verbatim>\<open>CUDABatchAligner\<close>,
  whose sources are not in the file). A batch is a container that accepts work items
  until full: \<^verbatim>\<open>reset\<close> clears it, an insertion either adds the item or refuses it and
  changes nothing, the batch is non-empty when it holds an item, and its execution
  reports flags for the items held. The capacity rule \<open>fits\<close> (may the item join those
  held) and the accelerator's result \<open>gpu_kernel\<close> are parameters of the unit.
\<close>

record 'w batch =
  fits :: "'w list \<Rightarrow> 'w \<Rightarrow> bool"
  gpu_kernel :: "'w list \<Rightarrow> bool list"
  held :: "'w list"

definition reset :: "'w batch \<Rightarrow> 'w batch" where
  "reset b = b\<lparr>held := []\<rparr>"

definition add_item :: "'w batch \<Rightarrow> 'w \<Rightarrow> bool \<times> 'w batch" where
  "add_item b w = (if fits b (held b) w then (True, b\<lparr>held := held b @ [w]\<rparr>) else (False, b))"

definition addWindow :: "'w batch \<Rightarrow> 'w \<Rightarrow> bool \<times> 'w batch" where
  "addWindow b w = add_item b w"

definition addOverlap :: "'w batch \<Rightarrow> 'w \<Rightarrow> bool \<times> 'w batch" where
  "addOverlap b ov = add_item b ov"

definition hasWindows :: "'w batch \<Rightarrow> bool" where
  "hasWindows b = (held b \<noteq> [])"

definition hasOverlaps :: "'w batch \<Rightarrow> bool" where
  "hasOverlaps b = (held b \<noteq> [])"

definition generateConsensus :: "'w batch \<Rightarrow> bool list" where
  "generateConsensus b = gpu_kernel b (held b)"

subsection \<open>The batch fillers\<close>

text \<open>
  The \<^verbatim>\<open>while\<close> loop of lines 88 to 98 and of lines 217 to 227, the same text on overlaps
  with \<^verbatim>\<open>addOverlap\<close> and on windows with \<^verbatim>\<open>addWindow\<close> (the parameter \<open>add\<close>): \<open>count\<close>
  is the size of the collection cut to \<^verbatim>\<open>uint32_t\<close>, the item is read with \<^verbatim>\<open>at\<close>, the
  index is incremented when the batch took the item.
\<close>

function fill_loop ::
  "('w batch \<Rightarrow> 'w \<Rightarrow> bool \<times> 'w batch) \<Rightarrow> 'w list \<Rightarrow> 'w batch \<Rightarrow> nat
   \<Rightarrow> error + ('w batch \<times> nat)" where
  "fill_loop add items b next_index =
     (if next_index < u32 (length items) then
        (if next_index < length items then
           (let (added, b') = add b (items ! next_index)
            in if added then fill_loop add items b' (u32 (next_index + 1))
               else Inr (b', next_index))
         else Inl OutOfRange)
      else Inr (b, next_index))"
  by pat_completeness auto

termination
proof (relation "measure (\<lambda>(add, items, b, n). u32 (length items) - n)", goal_cases)
  case 1
  show ?case by simp
next
  case (2 add items b n x xa y)
  have "u32 (length items) < 2 ^ 32" by (simp add: u32_def)
  with 2(1) have "u32 (n + 1) = n + 1" by (simp add: u32_def)
  with 2(1) show ?case by simp
qed

declare fill_loop.simps [simp del]

type_synonym index_range = "nat \<times> nat"

definition RACON_LOGGER_BIN_SIZE :: nat where
  "RACON_LOGGER_BIN_SIZE = 20"

text \<open>
  \<^verbatim>\<open>fill_next_batch\<close> of \<^verbatim>\<open>find_overlap_breaking_points\<close> (lines 80 to 107). It returns the
  batch, the index and the line it prints, if any.
\<close>

definition fill_next_batch_overlaps ::
  "'w list \<Rightarrow> nat \<Rightarrow> 'w batch \<Rightarrow> error + ('w batch \<times> nat \<times> index_range option)" where
  "fill_next_batch_overlaps overlaps next_overlap_index batch =
     (let initial_count = next_overlap_index in
      case fill_loop addOverlap overlaps (reset batch) next_overlap_index of
        Inl e \<Rightarrow> Inl e
      | Inr (b', next') \<Rightarrow>
          Inr (b', next',
               if sub32 next' initial_count > 0 then Some (initial_count, next') else None))"

text \<open>
  \<^verbatim>\<open>fill_next_batch\<close> of \<^verbatim>\<open>polish\<close> (lines 204 to 238), on the index and the logger count
  it captures. \<open>logger_step\<close> is the value of line 200. The division of line 229 has no
  guard.
\<close>

definition logger_step :: "'w list \<Rightarrow> nat" where
  "logger_step windows = u32 (length windows div RACON_LOGGER_BIN_SIZE)"

definition fill_next_batch_windows ::
  "'w list \<Rightarrow> nat \<times> nat \<Rightarrow> 'w batch \<Rightarrow> error + ('w batch \<times> (nat \<times> nat) \<times> index_range)" where
  "fill_next_batch_windows windows cursor batch =
     (let (next_window_index, last_logger_count) = cursor;
          initial_count = next_window_index in
      case fill_loop addWindow windows (reset batch) next_window_index of
        Inl e \<Rightarrow> Inl e
      | Inr (b', next') \<Rightarrow>
          if logger_step windows = 0 then Inl DivisionByZero
          else
            (let logger_count = initial_count div logger_step windows;
                 last' = (if sub32 next' initial_count > 0 \<and> logger_count > last_logger_count
                          then u32 (last_logger_count + 1) else last_logger_count)
             in Inr (b', (next', last'), (initial_count, next'))))"

subsection \<open>What a filler returns\<close>

text \<open>
  The facts on the fillers that the termination of the runners rests on: the loop never
  throws, the index only grows and stays within the collection, the batch holds the items
  between the old and the new index, and a loop that stops early was refused an item.
\<close>

lemma u32_le: "u32 n \<le> n"
  by (simp add: u32_def)

lemma u32_lt: "u32 n < 2 ^ 32"
  by (simp add: u32_def)

lemma u32_id: "n < 2 ^ 32 \<Longrightarrow> u32 n = n"
  by (simp add: u32_def)

lemma sub32_le: "a \<le> b \<Longrightarrow> b < 2 ^ 32 \<Longrightarrow> sub32 b a = b - a"
proof -
  assume a: "a \<le> b" "b < 2 ^ 32"
  then have "b + 2 ^ 32 - a = (b - a) + 2 ^ 32" by simp
  with a show ?thesis unfolding sub32_def by (simp del: add_diff_assoc2)
qed

lemma add_item_cases:
  "add_item b w = (added, b') \<Longrightarrow>
     (added \<and> fits b (held b) w \<and> b' = b\<lparr>held := held b @ [w]\<rparr>)
     \<or> (\<not> added \<and> \<not> fits b (held b) w \<and> b' = b)"
  by (auto simp: add_item_def split: if_splits)

lemma fill_loop_Inr:
  assumes "add = add_item"
  shows "\<exists>b' n'. fill_loop add items b n = Inr (b', n') \<and> n \<le> n'
      \<and> (n' \<le> u32 (length items) \<or> n' = n)
      \<and> held b' = held b @ take (n' - n) (drop n items)
      \<and> fits b' = fits b \<and> gpu_kernel b' = gpu_kernel b
      \<and> (n' < u32 (length items) \<longrightarrow> \<not> fits b (held b') (items ! n'))"
  using assms
proof (induction add items b n rule: fill_loop.induct)
  case (1 add items b n)
  note add = \<open>add = add_item\<close>
  show ?case
  proof (cases "n < u32 (length items)")
    case False
    then show ?thesis by (subst fill_loop.simps) simp
  next
    case True
    then have nl: "n < length items" using u32_le [of "length items"] by simp
    have s: "u32 (n + 1) = n + 1"
      using True u32_lt [of "length items"] by (simp add: u32_def)
    obtain added b1 where a: "add b (items ! n) = (added, b1)"
      by (cases "add b (items ! n)")
    then have a': "add_item b (items ! n) = (added, b1)" using add by simp
    show ?thesis
    proof (cases added)
      case False
      with add_item_cases [OF a'] have "\<not> fits b (held b) (items ! n)" "b1 = b" by auto
      then show ?thesis
        using True nl a False by (subst fill_loop.simps) simp
    next
      case t: True
      with add_item_cases [OF a']
      have b1: "b1 = b\<lparr>held := held b @ [items ! n]\<rparr>" by auto
      from "1.IH" [OF True nl a [symmetric] refl t add]
      obtain b' n' where r: "fill_loop add items b1 (n + 1) = Inr (b', n')" "n + 1 \<le> n'"
        "n' \<le> u32 (length items) \<or> n' = n + 1"
        "held b' = held b1 @ take (n' - (n + 1)) (drop (n + 1) items)"
        "fits b' = fits b1" "gpu_kernel b' = gpu_kernel b1"
        "n' < u32 (length items) \<longrightarrow> \<not> fits b1 (held b') (items ! n')"
        unfolding s by blast
      have e: "fill_loop add items b n = Inr (b', n')"
        using True nl a t r(1) s by (subst fill_loop.simps) simp
      have d: "drop n items = items ! n # drop (n + 1) items"
        using nl by (simp add: Cons_nth_drop_Suc)
      have k: "n' - n = Suc (n' - (n + 1))" using r(2) by simp
      have h: "held b' = held b @ take (n' - n) (drop n items)"
        unfolding k d using r(4) b1 by simp
      have le: "n' \<le> u32 (length items) \<or> n' = n"
        using r(3) True by auto
      show ?thesis
        using e r(2) le h r(5,6,7) b1 by simp
    qed
  qed
qed

lemma addWindow_add_item: "addWindow = add_item"
  by (intro ext) (simp add: addWindow_def)

lemma addOverlap_add_item: "addOverlap = add_item"
  by (intro ext) (simp add: addOverlap_def)

lemma fill_windows_zero:
  "logger_step ws = 0 \<Longrightarrow> fill_next_batch_windows ws c b = Inl DivisionByZero"
proof -
  obtain n l where c: "c = (n, l)" by (cases c)
  obtain b' n' where "fill_loop addWindow ws (reset b) n = Inr (b', n')"
    using fill_loop_Inr [OF addWindow_add_item, of ws "reset b" n] by blast
  then show "logger_step ws = 0 \<Longrightarrow> ?thesis"
    by (simp add: fill_next_batch_windows_def c)
qed

lemma fill_windows_Inl:
  "fill_next_batch_windows ws c b = Inl e \<Longrightarrow> e = DivisionByZero \<and> logger_step ws = 0"
proof -
  obtain n l where c: "c = (n, l)" by (cases c)
  obtain b' n' where "fill_loop addWindow ws (reset b) n = Inr (b', n')"
    using fill_loop_Inr [OF addWindow_add_item, of ws "reset b" n] by blast
  then show "fill_next_batch_windows ws c b = Inl e \<Longrightarrow> ?thesis"
    by (simp add: fill_next_batch_windows_def c Let_def split: if_splits)
qed

lemma fill_windows_Inr:
  assumes "fill_next_batch_windows ws (n, l) b = Inr (b', (n', l'), rng)"
  shows "rng = (n, n') \<and> n \<le> n' \<and> (n' \<le> u32 (length ws) \<or> n' = n)
         \<and> held b' = take (n' - n) (drop n ws)
         \<and> fits b' = fits b \<and> gpu_kernel b' = gpu_kernel b
         \<and> (n' < u32 (length ws) \<longrightarrow> \<not> fits b (held b') (ws ! n'))
         \<and> logger_step ws \<noteq> 0"
proof -
  obtain b1 n1 where f: "fill_loop addWindow ws (reset b) n = Inr (b1, n1)" "n \<le> n1"
      "n1 \<le> u32 (length ws) \<or> n1 = n"
      "held b1 = held (reset b) @ take (n1 - n) (drop n ws)"
      "fits b1 = fits (reset b)" "gpu_kernel b1 = gpu_kernel (reset b)"
      "n1 < u32 (length ws) \<longrightarrow> \<not> fits (reset b) (held b1) (ws ! n1)"
    using fill_loop_Inr [OF addWindow_add_item, of ws "reset b" n] by blast
  from assms f(1) have "b' = b1" "n' = n1" "rng = (n, n1)" "logger_step ws \<noteq> 0"
    by (auto simp: fill_next_batch_windows_def Let_def split: if_splits)
  with f show ?thesis by (simp add: reset_def)
qed

lemma fill_overlaps_Inr:
  "\<exists>b' n' line. fill_next_batch_overlaps ovs n b = Inr (b', n', line) \<and> n \<le> n'
      \<and> (n' \<le> u32 (length ovs) \<or> n' = n)
      \<and> held b' = take (n' - n) (drop n ovs)
      \<and> fits b' = fits b \<and> gpu_kernel b' = gpu_kernel b
      \<and> (n' < u32 (length ovs) \<longrightarrow> \<not> fits b (held b') (ovs ! n'))"
proof -
  obtain b1 n1 where f: "fill_loop addOverlap ovs (reset b) n = Inr (b1, n1)" "n \<le> n1"
      "n1 \<le> u32 (length ovs) \<or> n1 = n"
      "held b1 = held (reset b) @ take (n1 - n) (drop n ovs)"
      "fits b1 = fits (reset b)" "gpu_kernel b1 = gpu_kernel (reset b)"
      "n1 < u32 (length ovs) \<longrightarrow> \<not> fits (reset b) (held b1) (ovs ! n1)"
    using fill_loop_Inr [OF addOverlap_add_item, of ovs "reset b" n] by blast
  then show ?thesis
    by (simp add: fill_next_batch_overlaps_def reset_def)
qed

subsection \<open>The schedule\<close>

text \<open>
  The runner that moves next, among the runners \<open>act\<close> still in their loop.
\<close>

definition pick :: "nat list \<Rightarrow> nat list \<Rightarrow> nat" where
  "pick sched act = act ! (case sched of [] \<Rightarrow> 0 | c # cs \<Rightarrow> c mod length act)"

subsection \<open>The batch runners of find_overlap_breaking_points\<close>

text \<open>
  The place of a runner of lines 110 to 125 in its loop: about to call
  \<^verbatim>\<open>fill_next_batch\<close>, about to run \<^verbatim>\<open>alignAll\<close> and \<^verbatim>\<open>find_breaking_points\<close> on its batch,
  out of the loop, or ended by an exception.
\<close>

datatype aligner_place = AFilling | AAligning | AFinished | AThrew error

fun aligner_running :: "aligner_place \<Rightarrow> bool" where
  "aligner_running AFilling = True"
| "aligner_running AAligning = True"
| "aligner_running AFinished = False"
| "aligner_running (AThrew e) = False"

text \<open>
  The shared state: the index under the mutex and the batches with the place of their
  runners; the lines printed at line 101; and, as history, the overlaps each executed
  batch held when \<^verbatim>\<open>alignAll\<close> and \<^verbatim>\<open>find_breaking_points\<close> ran on it.
\<close>

record 'o align_state =
  next_overlap_index :: nat
  batch_aligners :: "('o batch \<times> aligner_place) list"
  printed_ranges :: "index_range list"
  aligned :: "'o list list"

definition process_batch_overlaps_step :: "'o list \<Rightarrow> nat \<Rightarrow> 'o align_state \<Rightarrow> 'o align_state" where
  "process_batch_overlaps_step overlaps r s =
     (let (batch, place) = batch_aligners s ! r in
      case place of
        AFilling \<Rightarrow>
          (case fill_next_batch_overlaps overlaps (next_overlap_index s) batch of
             Inl e \<Rightarrow> s\<lparr>batch_aligners := (batch_aligners s)[r := (batch, AThrew e)]\<rparr>
           | Inr (b', next', line) \<Rightarrow>
               s\<lparr>next_overlap_index := next',
                 batch_aligners := (batch_aligners s)
                   [r := (b', if hasOverlaps b' then AAligning else AFinished)],
                 printed_ranges := printed_ranges s
                   @ (case line of None \<Rightarrow> [] | Some l \<Rightarrow> [l])\<rparr>)
      | AAligning \<Rightarrow>
          s\<lparr>aligned := aligned s @ [held batch],
            batch_aligners := (batch_aligners s)[r := (batch, AFilling)]\<rparr>
      | AFinished \<Rightarrow> s
      | AThrew e \<Rightarrow> s)"

text \<open>
  The runners still in their loop, and the run of all threads to the end (lines 133 to
  146): while a runner is in its loop, the one the schedule selects takes its next step.
\<close>

definition active_aligners :: "('o batch \<times> aligner_place) list \<Rightarrow> nat list" where
  "active_aligners procs = filter (\<lambda>r. aligner_running (snd (procs ! r))) [0..<length procs]"

fun aligner_weight :: "aligner_place \<Rightarrow> nat" where
  "aligner_weight AFilling = 1"
| "aligner_weight AAligning = 2"
| "aligner_weight AFinished = 0"
| "aligner_weight (AThrew e) = 0"

definition align_measure :: "'o list \<Rightarrow> 'o align_state \<Rightarrow> nat" where
  "align_measure overlaps s =
     2 * (u32 (length overlaps) - next_overlap_index s)
     + sum_list (map (aligner_weight \<circ> snd) (batch_aligners s))"

definition aligner_weights :: "('o batch \<times> aligner_place) list \<Rightarrow> nat" where
  "aligner_weights procs = sum_list (map (aligner_weight \<circ> snd) procs)"

lemma aligner_weights_update:
  "r < length procs \<Longrightarrow>
   aligner_weights (procs[r := x]) + aligner_weight (snd (procs ! r))
   = aligner_weights procs + aligner_weight (snd x)"
  unfolding aligner_weights_def
  by (induction procs arbitrary: r) (auto split: nat.splits simp: nth_Cons')

lemma overlaps_step_decreases:
  assumes "r < length (batch_aligners s)" and "aligner_running (snd (batch_aligners s ! r))"
  shows "align_measure ovs (process_batch_overlaps_step ovs r s) < align_measure ovs s"
proof -
  obtain b place where p: "batch_aligners s ! r = (b, place)"
    by (cases "batch_aligners s ! r")
  note w = aligner_weights_update [OF assms(1)]
  have m: "align_measure ovs t = 2 * (u32 (length ovs) - next_overlap_index t)
             + aligner_weights (batch_aligners t)" for t :: "'a align_state"
    by (simp add: align_measure_def aligner_weights_def)
  show ?thesis
  proof (cases place)
    case AFilling
    from fill_overlaps_Inr [of ovs "next_overlap_index s" b]
    obtain b' n' line where f: "fill_next_batch_overlaps ovs (next_overlap_index s) b = Inr (b', n', line)"
      "next_overlap_index s \<le> n'" "n' \<le> u32 (length ovs) \<or> n' = next_overlap_index s"
      "held b' = take (n' - next_overlap_index s) (drop (next_overlap_index s) ovs)"
      by blast
    show ?thesis
    proof (cases "hasOverlaps b'")
      case True
      then have "n' \<noteq> next_overlap_index s" using f by (auto simp: hasOverlaps_def)
      with f have lt: "next_overlap_index s < n'" "n' \<le> u32 (length ovs)" by auto
      show ?thesis
        using w [of "(b', AAligning)"] lt p AFilling f(1) True
        by (simp add: m process_batch_overlaps_step_def)
    next
      case False
      show ?thesis
        using w [of "(b', AFinished)"] f p AFilling False
        by (auto simp: m process_batch_overlaps_step_def)
    qed
  next
    case AAligning
    show ?thesis
      using w [of "(b, AFilling)"] p AAligning
      by (simp add: m process_batch_overlaps_step_def)
  next
    case AFinished
    with assms(2) p show ?thesis by simp
  next
    case (AThrew e)
    with assms(2) p show ?thesis by simp
  qed
qed

lemma pick_active_aligner:
  assumes "active_aligners procs = a # as"
  shows "pick sched (a # as) < length procs \<and> aligner_running (snd (procs ! pick sched (a # as)))"
proof -
  have "(case sched of [] \<Rightarrow> 0 | c # cs \<Rightarrow> c mod length (a # as)) < length (a # as)"
    by (cases sched) simp_all
  then have "pick sched (a # as) \<in> set (a # as)"
    unfolding pick_def by (rule nth_mem)
  then have "pick sched (a # as) \<in> set (active_aligners procs)" using assms by simp
  then show ?thesis by (simp add: active_aligners_def)
qed

function run_aligners :: "'o list \<Rightarrow> nat list \<Rightarrow> 'o align_state \<Rightarrow> 'o align_state" where
  "run_aligners overlaps sched s =
     (case active_aligners (batch_aligners s) of
        [] \<Rightarrow> s
      | a # as \<Rightarrow>
          run_aligners overlaps (tl sched)
            (process_batch_overlaps_step overlaps (pick sched (a # as)) s))"
  by pat_completeness auto

termination
proof (relation "measure (\<lambda>(overlaps, sched, s). align_measure overlaps s)", goal_cases)
  case 1
  show ?case by simp
next
  case (2 overlaps sched s a as)
  from pick_active_aligner [OF 2(1), of sched]
  have "align_measure overlaps (process_batch_overlaps_step overlaps (pick sched (a # as)) s)
        < align_measure overlaps s"
    by (intro overlaps_step_decreases) simp_all
  then show ?case by simp
qed

declare run_aligners.simps [simp del]

text \<open>
  \<^verbatim>\<open>find_overlap_breaking_points\<close> (lines 74 to 154), by the calls it makes on the overlaps:
  the rounds of the accelerator batches, then the host implementation
  \<^verbatim>\<open>Polisher::find_overlap_breaking_points\<close> on the whole collection (line 153).
\<close>

datatype 'o call = AcceleratorAlign "'o list" | HostFindBreakingPoints "'o list"

fun handled :: "'o call \<Rightarrow> 'o list" where
  "handled (AcceleratorAlign batch) = batch"
| "handled (HostFindBreakingPoints overlaps) = overlaps"

definition start_aligners :: "'o batch list \<Rightarrow> 'o align_state" where
  "start_aligners aligners =
     \<lparr>next_overlap_index = 0, batch_aligners = map (\<lambda>b. (b, AFilling)) aligners,
      printed_ranges = [], aligned = []\<rparr>"

definition find_overlap_breaking_points :: "'o list \<Rightarrow> 'o batch list \<Rightarrow> nat list \<Rightarrow> 'o call list" where
  "find_overlap_breaking_points overlaps aligners sched =
     (let s = run_aligners overlaps sched (start_aligners aligners)
      in map AcceleratorAlign (aligned s) @ [HostFindBreakingPoints overlaps])"

subsection \<open>The status vector\<close>

text \<open>
  \<^verbatim>\<open>window_consensus_status_\<close> is a \<^verbatim>\<open>std::vector<bool>\<close>, like the \<open>results\<close> of line 248:
  its flags are packed, \<open>word_bits\<close> of them to a storage word. The assignment of line 262,
  \<^verbatim>\<open>window_consensus_status_.at(j) = v\<close>, checks \<open>j\<close> against the size, reads the word that
  holds flag \<open>j\<close>, changes that one bit and writes the whole word back
  (\<^verbatim>\<open>*p |= mask\<close> or \<^verbatim>\<open>*p &= ~mask\<close>); no lock and no atomic operation makes the read and
  the write one step. The vector is kept as the list of its flags; the word of flag \<open>j\<close> is
  the slice of at most \<open>word_bits\<close> flags that starts at \<open>word_start j\<close>.
\<close>

definition word_bits :: nat where
  "word_bits = 64"

definition word_start :: "nat \<Rightarrow> nat" where
  "word_start j = j div word_bits * word_bits"

definition load_word :: "bool list \<Rightarrow> nat \<Rightarrow> bool list" where
  "load_word status j = take word_bits (drop (word_start j) status)"

definition assign_bit :: "bool list \<Rightarrow> nat \<Rightarrow> bool \<Rightarrow> bool list" where
  "assign_bit word j v = word[j mod word_bits := v]"

definition store_word :: "bool list \<Rightarrow> nat \<Rightarrow> bool list \<Rightarrow> bool list" where
  "store_word status j word =
     take (word_start j) status @ word @ drop (word_start j + length word) status"

subsection \<open>The batch runners of polish\<close>

text \<open>
  The place of a runner (\<^verbatim>\<open>process_batch\<close>, lines 241 to 270) in its loop: about to call
  \<^verbatim>\<open>fill_next_batch\<close>; holding the range it was given, about to execute the batch; in the
  copy loop of lines 260 to 263 with the range start, the results and the loop index \<open>i\<close>,
  about to read the word of the status vector that holds flag \<open>first + i\<close>; in the same
  assignment, holding the word it has read, about to write it back with the bit changed;
  out of the loop by \<^verbatim>\<open>break\<close>; or ended by an exception, which stays in the runner's
  future.
\<close>

datatype pc =
    Filling
  | Executing nat nat
  | Copying nat "bool list" nat
  | Storing nat "bool list" nat "bool list"
  | Finished
  | Threw error

fun running :: "pc \<Rightarrow> bool" where
  "running Filling = True"
| "running (Executing first second) = True"
| "running (Copying first results i) = True"
| "running (Storing first results i word) = True"
| "running Finished = False"
| "running (Threw e) = False"

text \<open>
  The state the runners share: the index and the logger count under the mutex, the status
  vector, the batches with the place of their runners. Two history fields record what the
  run did: the ranges \<^verbatim>\<open>fill_next_batch\<close> returned, in the order of the calls, and the
  assignments of line 262, index and flag, in the order of their writes.
\<close>

record 'w poa_state =
  next_window_index :: nat
  last_logger_count :: nat
  window_consensus_status :: "bool list"
  batch_processors :: "('w batch \<times> pc) list"
  returned_ranges :: "index_range list"
  accelerator_writes :: "(nat \<times> bool) list"

text \<open>
  One step of runner \<open>r\<close>: the call of \<^verbatim>\<open>fill_next_batch\<close> with the test of line 245; the
  execution of the batch with the check of line 252; the test of the copy loop with the
  range check of \<^verbatim>\<open>at\<close> and the read of the word; or the write of the word and the
  increment of \<open>i\<close> (which stays below the size of the results). A division by zero ends the
  process; any exception ends the runner only.
\<close>

definition process_batch_step :: "'w list \<Rightarrow> nat \<Rightarrow> 'w poa_state \<Rightarrow> error + 'w poa_state" where
  "process_batch_step windows r s =
     (let (batch, place) = batch_processors s ! r in
      case place of
        Filling \<Rightarrow>
          (case fill_next_batch_windows windows (next_window_index s, last_logger_count s) batch of
             Inl e \<Rightarrow>
               if e = DivisionByZero then Inl e
               else Inr (s\<lparr>batch_processors := (batch_processors s)[r := (batch, Threw e)]\<rparr>)
           | Inr (b', (next', last'), rng) \<Rightarrow>
               Inr (s\<lparr>next_window_index := next', last_logger_count := last',
                      batch_processors := (batch_processors s)
                        [r := (b', if hasWindows b' then Executing (fst rng) (snd rng)
                                   else Finished)],
                      returned_ranges := returned_ranges s @ [rng]\<rparr>))
      | Executing first second \<Rightarrow>
          (let results = generateConsensus batch in
           if length results \<noteq> sub32 second first
           then Inr (s\<lparr>batch_processors := (batch_processors s)[r := (batch, Threw RuntimeError)]\<rparr>)
           else Inr (s\<lparr>batch_processors := (batch_processors s)[r := (batch, Copying first results 0)]\<rparr>))
      | Copying first results i \<Rightarrow>
          (if i < length results then
             (let j = u32 (first + i)
              in if j < length (window_consensus_status s)
                 then Inr (s\<lparr>batch_processors := (batch_processors s)
                             [r := (batch, Storing first results i
                                             (load_word (window_consensus_status s) j))]\<rparr>)
                 else Inr (s\<lparr>batch_processors := (batch_processors s)[r := (batch, Threw OutOfRange)]\<rparr>))
           else Inr (s\<lparr>batch_processors := (batch_processors s)[r := (batch, Filling)]\<rparr>))
      | Storing first results i word \<Rightarrow>
          (let j = u32 (first + i);
               v = results ! i
           in Inr (s\<lparr>window_consensus_status :=
                        store_word (window_consensus_status s) j (assign_bit word j v),
                      accelerator_writes := accelerator_writes s @ [(j, v)],
                      batch_processors := (batch_processors s)
                        [r := (batch, Copying first results (i + 1))]\<rparr>))
      | Finished \<Rightarrow> Inr s
      | Threw e \<Rightarrow> Inr s)"

text \<open>
  The runners that are still in their loop, and the threads run to the end: while a runner
  is in its loop, one of them, chosen by the schedule, takes its next step.
\<close>

definition active :: "('w batch \<times> pc) list \<Rightarrow> nat list" where
  "active procs = filter (\<lambda>r. running (snd (procs ! r))) [0..<length procs]"

fun pc_weight :: "pc \<Rightarrow> nat" where
  "pc_weight Filling = 1"
| "pc_weight (Executing first second) = 2 * sub32 second first + 3"
| "pc_weight (Copying first results i) = 2 * (length results - i) + 2"
| "pc_weight (Storing first results i word) = 2 * (length results - (i + 1)) + 3"
| "pc_weight Finished = 0"
| "pc_weight (Threw e) = 0"

definition run_measure :: "'w list \<Rightarrow> 'w poa_state \<Rightarrow> nat" where
  "run_measure windows s =
     5 * (u32 (length windows) - next_window_index s)
     + sum_list (map (pc_weight \<circ> snd) (batch_processors s))"

definition weights :: "('w batch \<times> pc) list \<Rightarrow> nat" where
  "weights procs = sum_list (map (pc_weight \<circ> snd) procs)"

lemma weights_update:
  "r < length procs \<Longrightarrow>
   weights (procs[r := x]) + pc_weight (snd (procs ! r)) = weights procs + pc_weight (snd x)"
  unfolding weights_def
  by (induction procs arbitrary: r) (auto split: nat.splits simp: nth_Cons')

lemma run_measure_weights:
  "run_measure ws s = 5 * (u32 (length ws) - next_window_index s) + weights (batch_processors s)"
  by (simp add: run_measure_def weights_def)

lemma process_batch_step_decreases:
  assumes "r < length (batch_processors s)" and "running (snd (batch_processors s ! r))"
    and "process_batch_step ws r s = Inr s'"
  shows "run_measure ws s' < run_measure ws s"
proof -
  obtain b place where p: "batch_processors s ! r = (b, place)"
    by (cases "batch_processors s ! r")
  note w = weights_update [OF assms(1)]
  show ?thesis
  proof (cases place)
    case Filling
    show ?thesis
    proof (cases "fill_next_batch_windows ws (next_window_index s, last_logger_count s) b")
      case (Inl e)
      with fill_windows_Inl [OF Inl] assms(3) p Filling show ?thesis
        by (simp add: process_batch_step_def)
    next
      case (Inr res)
      obtain b' n' l' rng where res: "res = (b', (n', l'), rng)" by (cases res) auto
      note f = fill_windows_Inr [OF Inr [unfolded res]]
      show ?thesis
      proof (cases "hasWindows b'")
        case True
        then have "n' \<noteq> next_window_index s" using f by (auto simp: hasWindows_def)
        with f have lt: "next_window_index s < n'" "n' \<le> u32 (length ws)" by auto
        have "n' < 2 ^ 32" using lt(2) u32_lt [of "length ws"] by simp
        with lt(1) have sub: "sub32 n' (next_window_index s) = n' - next_window_index s"
          by (simp add: sub32_le)
        have s': "s' = s\<lparr>next_window_index := n', last_logger_count := l',
                      batch_processors := (batch_processors s)[r := (b', Executing (fst rng) (snd rng))],
                      returned_ranges := returned_ranges s @ [rng]\<rparr>"
          using assms(3) p Filling Inr res True by (simp add: process_batch_step_def)
        have rng: "rng = (next_window_index s, n')" using f by simp
        show ?thesis
          using w [of "(b', Executing (fst rng) (snd rng))"] lt p Filling sub
          by (simp add: run_measure_weights s' rng)
      next
        case False
        have s': "s' = s\<lparr>next_window_index := n', last_logger_count := l',
                      batch_processors := (batch_processors s)[r := (b', Finished)],
                      returned_ranges := returned_ranges s @ [rng]\<rparr>"
          using assms(3) p Filling Inr res False by (simp add: process_batch_step_def)
        show ?thesis
          using w [of "(b', Finished)"] f p Filling
          by (auto simp: run_measure_weights s')
      qed
    qed
  next
    case (Executing first second)
    have "\<exists>x. pc_weight (snd x) < pc_weight place \<and> batch_processors s' = (batch_processors s)[r := x]
            \<and> next_window_index s' = next_window_index s"
    proof (cases "length (generateConsensus b) \<noteq> sub32 second first")
      case True
      then have "s' = s\<lparr>batch_processors := (batch_processors s)[r := (b, Threw RuntimeError)]\<rparr>"
        using assms(3) p Executing by (simp add: process_batch_step_def Let_def)
      then show ?thesis using Executing by (intro exI [of _ "(b, Threw RuntimeError)"]) simp
    next
      case False
      then have "s' = s\<lparr>batch_processors := (batch_processors s)
                       [r := (b, Copying first (generateConsensus b) 0)]\<rparr>"
        using assms(3) p Executing by (simp add: process_batch_step_def Let_def)
      then show ?thesis
        using Executing False by (intro exI [of _ "(b, Copying first (generateConsensus b) 0)"]) simp
    qed
    then obtain x where x: "pc_weight (snd x) < pc_weight place"
       "batch_processors s' = (batch_processors s)[r := x]"
       "next_window_index s' = next_window_index s" by blast
    show ?thesis
      using w [of x] x p by (simp add: run_measure_weights)
  next
    case (Copying first results i)
    have "\<exists>x. pc_weight (snd x) < pc_weight place \<and> batch_processors s' = (batch_processors s)[r := x]
            \<and> next_window_index s' = next_window_index s"
    proof (cases "i < length results")
      case False
      then have "s' = s\<lparr>batch_processors := (batch_processors s)[r := (b, Filling)]\<rparr>"
        using assms(3) p Copying by (simp add: process_batch_step_def)
      then show ?thesis using Copying by (intro exI [of _ "(b, Filling)"]) simp
    next
      case True
      show ?thesis
      proof (cases "u32 (first + i) < length (window_consensus_status s)")
        case t: True
        then have "s' = s\<lparr>batch_processors := (batch_processors s)
             [r := (b, Storing first results i (load_word (window_consensus_status s) (u32 (first + i))))]\<rparr>"
          using assms(3) p Copying True by (simp add: process_batch_step_def Let_def)
        then show ?thesis
          using Copying True
          by (intro exI [of _ "(b, Storing first results i
                  (load_word (window_consensus_status s) (u32 (first + i))))"]) simp
      next
        case f: False
        then have "s' = s\<lparr>batch_processors := (batch_processors s)[r := (b, Threw OutOfRange)]\<rparr>"
          using assms(3) p Copying True by (simp add: process_batch_step_def Let_def)
        then show ?thesis using Copying by (intro exI [of _ "(b, Threw OutOfRange)"]) simp
      qed
    qed
    then obtain x where x: "pc_weight (snd x) < pc_weight place"
       "batch_processors s' = (batch_processors s)[r := x]"
       "next_window_index s' = next_window_index s" by blast
    show ?thesis
      using w [of x] x p by (simp add: run_measure_weights)
  next
    case (Storing first results i word)
    have "batch_processors s' = (batch_processors s)[r := (b, Copying first results (i + 1))]"
         "next_window_index s' = next_window_index s"
      using assms(3) p Storing by (auto simp: process_batch_step_def Let_def)
    then show ?thesis
      using w [of "(b, Copying first results (i + 1))"] p Storing
      by (simp add: run_measure_weights)
  next
    case Finished
    with assms(2) p show ?thesis by simp
  next
    case (Threw e)
    with assms(2) p show ?thesis by simp
  qed
qed

lemma pick_active:
  assumes "active procs = a # as"
  shows "pick sched (a # as) < length procs \<and> running (snd (procs ! pick sched (a # as)))"
proof -
  have "(case sched of [] \<Rightarrow> 0 | c # cs \<Rightarrow> c mod length (a # as)) < length (a # as)"
    by (cases sched) simp_all
  then have "pick sched (a # as) \<in> set (a # as)"
    unfolding pick_def by (rule nth_mem)
  then have "pick sched (a # as) \<in> set (active procs)" using assms by simp
  then show ?thesis by (simp add: active_def)
qed

function run_batches :: "'w list \<Rightarrow> nat list \<Rightarrow> 'w poa_state \<Rightarrow> error + 'w poa_state" where
  "run_batches windows sched s =
     (case active (batch_processors s) of
        [] \<Rightarrow> Inr s
      | a # as \<Rightarrow>
          (case process_batch_step windows (pick sched (a # as)) s of
             Inl e \<Rightarrow> Inl e
           | Inr s' \<Rightarrow> run_batches windows (tl sched) s'))"
  by pat_completeness auto

termination
proof (relation "measure (\<lambda>(windows, sched, s). run_measure windows s)", goal_cases)
  case 1
  show ?case by simp
next
  case (2 windows sched s a as s')
  from pick_active [OF 2(1)] process_batch_step_decreases [OF _ _ 2(2)]
  show ?case by simp
qed

declare run_batches.simps [simp del]

text \<open>\<^verbatim>\<open>vector::resize(n, v)\<close>.\<close>

definition resize :: "'a list \<Rightarrow> nat \<Rightarrow> 'a \<Rightarrow> 'a list" where
  "resize xs n v = take n xs @ replicate (n - length xs) v"

text \<open>
  The accelerator phase of \<^verbatim>\<open>polish\<close> (lines 186 to 285): the status vector is resized,
  the index and the logger count start at 0, one runner per batch is started, and the
  main thread waits for all of them. \<^verbatim>\<open>future::wait\<close> does not rethrow what a runner
  threw.
\<close>

definition start_state :: "bool list \<Rightarrow> 'w batch list \<Rightarrow> 'w poa_state" where
  "start_state status batches =
     \<lparr>next_window_index = 0, last_logger_count = 0, window_consensus_status = status,
      batch_processors = map (\<lambda>b. (b, Filling)) batches,
      returned_ranges = [], accelerator_writes = []\<rparr>"

definition accelerator_phase ::
  "'w list \<Rightarrow> 'w batch list \<Rightarrow> nat list \<Rightarrow> bool list \<Rightarrow> error + 'w poa_state" where
  "accelerator_phase windows batches sched status_before =
     run_batches windows sched (start_state (resize status_before (length windows) False) batches)"

subsection \<open>The fallback on the host thread pool\<close>

text \<open>
  What the fallback tasks use: the pool thread that runs the task submitted for an index
  (the pool decides), the map \<^verbatim>\<open>thread_to_id_\<close> from threads to alignment engines, and
  \<^verbatim>\<open>windows_[j]->generate_consensus(alignment_engines_[id])\<close>, which is outside the file.
\<close>

record 'w pool =
  worker_of_task :: "nat \<Rightarrow> nat"
  thread_to_id :: "nat \<rightharpoonup> nat"
  generate_consensus :: "nat \<Rightarrow> 'w \<Rightarrow> bool"

text \<open>
  The task of lines 292 to 301 for index \<open>j\<close>: \<^verbatim>\<open>exit(1)\<close> when the thread has no entry
  in the map, else the result is written to index \<open>j\<close>. An exception of \<^verbatim>\<open>at\<close> would stay
  in the task's future.
\<close>

definition failed_window_task :: "'w pool \<Rightarrow> 'w list \<Rightarrow> nat \<Rightarrow> bool list \<Rightarrow> error + bool list" where
  "failed_window_task pl windows j status =
     (case thread_to_id pl (worker_of_task pl j) of
        None \<Rightarrow> Inl Exit1
      | Some engine \<Rightarrow>
          (let v = generate_consensus pl engine (windows ! j)
           in if j < length status then Inr (status[j := v]) else Inr status))"

text \<open>
  The loop of lines 289 to 303 with the tasks it submits; a task touches its own index
  only, so it is run where it is submitted. The second component lists the submitted
  tasks (\<^verbatim>\<open>thread_failed_windows\<close>).
\<close>

function fallback_loop ::
  "'w pool \<Rightarrow> 'w list \<Rightarrow> nat \<Rightarrow> bool list \<Rightarrow> nat list \<Rightarrow> error + (bool list \<times> nat list)" where
  "fallback_loop pl windows i status tasks =
     (if i < length windows then
        (if i < length status then
           (if status ! i = False then
              (case failed_window_task pl windows i status of
                 Inl e \<Rightarrow> Inl e
               | Inr status' \<Rightarrow> fallback_loop pl windows (i + 1) status' (tasks @ [i]))
            else fallback_loop pl windows (i + 1) status tasks)
         else Inl OutOfRange)
      else Inr (status, tasks))"
  by pat_completeness auto

termination
  by (relation "measure (\<lambda>(pl, windows, i, status, tasks). length windows - i)") auto

declare fallback_loop.simps [simp del]

definition fallback :: "'w pool \<Rightarrow> 'w list \<Rightarrow> bool list \<Rightarrow> error + (bool list \<times> nat list)" where
  "fallback pl windows status = fallback_loop pl windows 0 status []"

subsection \<open>Windows and output records\<close>

text \<open>
  A window as the scheduler sees it: \<^verbatim>\<open>id()\<close>, \<^verbatim>\<open>rank()\<close> and \<^verbatim>\<open>consensus()\<close>. The
  class itself (window.hpp) is outside the file; the text is the one \<^verbatim>\<open>consensus()\<close>
  returns when the output pass reads it.
\<close>

record window =
  window_id :: nat
  rank :: nat
  consensus :: string

text \<open>The result of \<^verbatim>\<open>createSequence(name, data)\<close>.\<close>

record sequence =
  name :: string
  data :: string

definition createSequence :: "string \<Rightarrow> string \<Rightarrow> sequence" where
  "createSequence n d = \<lparr>name = n, data = d\<rparr>"

text \<open>
  The members of the polisher that the output pass reads: \<^verbatim>\<open>type_ == PolisherType::kF\<close>,
  \<^verbatim>\<open>sequences_[id]->name()\<close> and \<^verbatim>\<open>targets_coverages_[id]\<close> (both unchecked lookups, taken
  as total tables), and \<^verbatim>\<open>std::to_string(double)\<close>, which is kept as a parameter.
\<close>

record polisher =
  type_kF :: bool
  sequences_name :: "nat \<Rightarrow> string"
  targets_coverages :: "nat \<Rightarrow> nat"
  double_to_string :: "rat \<Rightarrow> string"

text \<open>\<^verbatim>\<open>std::to_string\<close> of an unsigned integer: its decimal digits.\<close>

definition digit_char :: "nat \<Rightarrow> char" where
  "digit_char d = ''0123456789'' ! d"

function to_string :: "nat \<Rightarrow> string" where
  "to_string n = (if n < 10 then [digit_char n] else to_string (n div 10) @ [digit_char (n mod 10)])"
  by pat_completeness auto

termination
  by (relation "measure (\<lambda>n. n)") auto

declare to_string.simps [simp del]

subsection \<open>The output pass (lines 316 to 341)\<close>

text \<open>
  \<open>polished_ratio\<close> is the double quotient of line 325; the model keeps the exact
  rational, of which the double is the nearest representable value. The test
  \<^verbatim>\<open>polished_ratio > 0\<close> is the same on both, the numerator being a natural number and the
  denominator at least one.
\<close>

definition polished_ratio :: "nat \<Rightarrow> window \<Rightarrow> rat" where
  "polished_ratio num_polished_windows w = of_nat num_polished_windows / of_nat (rank w + 1)"

definition tags :: "polisher \<Rightarrow> string \<Rightarrow> window \<Rightarrow> rat \<Rightarrow> string" where
  "tags p polished_data w ratio =
     (if type_kF p then ''r'' else '''')
     @ '' LN:i:'' @ to_string (length polished_data)
     @ '' RC:i:'' @ to_string (targets_coverages p (window_id w))
     @ '' XC:f:'' @ double_to_string p ratio"

text \<open>The body of the \<^verbatim>\<open>if\<close> of line 324: closing out one source sequence.\<close>

definition close_out ::
  "polisher \<Rightarrow> bool \<Rightarrow> window \<Rightarrow> string \<Rightarrow> nat \<Rightarrow> sequence list \<Rightarrow> sequence list" where
  "close_out p drop_unpolished_sequences w polished_data num_polished_windows dst =
     (let ratio = polished_ratio num_polished_windows w in
      if \<not> drop_unpolished_sequences \<or> ratio > 0
      then dst @ [createSequence (sequences_name p (window_id w) @ tags p polished_data w ratio)
                                 polished_data]
      else dst)"

text \<open>
  The loop of line 319, by its index \<open>i\<close>, with the accumulators \<open>polished_data\<close> and
  \<open>num_polished_windows\<close> (a \<^verbatim>\<open>uint32_t\<close>) and the destination vector. The status vector is
  read with \<^verbatim>\<open>at\<close>.
\<close>

function assemble_loop ::
  "polisher \<Rightarrow> bool \<Rightarrow> window list \<Rightarrow> bool list \<Rightarrow> nat \<Rightarrow> string \<Rightarrow> nat \<Rightarrow> sequence list
   \<Rightarrow> error + sequence list" where
  "assemble_loop p dr ws st i polished_data num dst =
     (if i < length ws then
        (if i < length st then
           (let num' = u32 (num + (if st ! i then 1 else 0));
                polished_data' = polished_data @ consensus (ws ! i)
            in if i = length ws - 1 \<or> rank (ws ! (i + 1)) = 0
               then assemble_loop p dr ws st (i + 1) [] 0
                      (close_out p dr (ws ! i) polished_data' num' dst)
               else assemble_loop p dr ws st (i + 1) polished_data' num' dst)
         else Inl OutOfRange)
      else Inr dst)"
  by pat_completeness auto

termination
  by (relation "measure (\<lambda>(p, dr, ws, st, i, pd, num, dst). length ws - i)") auto

declare assemble_loop.simps [simp del]

definition assemble ::
  "polisher \<Rightarrow> bool \<Rightarrow> window list \<Rightarrow> bool list \<Rightarrow> sequence list \<Rightarrow> error + sequence list" where
  "assemble p dr ws st dst = assemble_loop p dr ws st 0 [] 0 dst"

subsection \<open>polish\<close>

text \<open>
  \<^verbatim>\<open>polish\<close> (lines 156 to 345): the accelerator phase on the batches created at line
  180, the fallback, the output pass. \<open>status_before\<close> is the content of
  \<^verbatim>\<open>window_consensus_status_\<close> at the call, empty for a polisher just constructed.
\<close>

definition polish ::
  "polisher \<Rightarrow> window pool \<Rightarrow> window batch list \<Rightarrow> nat list \<Rightarrow> window list \<Rightarrow> bool list
   \<Rightarrow> bool \<Rightarrow> sequence list \<Rightarrow> error + sequence list" where
  "polish p pl batches sched windows status_before drop_unpolished_sequences dst =
     (case accelerator_phase windows batches sched status_before of
        Inl e \<Rightarrow> Inl e
      | Inr s \<Rightarrow>
          (case fallback pl windows (window_consensus_status s) of
             Inl e \<Rightarrow> Inl e
           | Inr (status, tasks) \<Rightarrow> assemble p drop_unpolished_sequences windows status dst))"

text \<open>
  The write history of a run of \<^verbatim>\<open>polish\<close> up to the output pass: the indices of the
  status vector assigned by the runners and the indices written by the fallback tasks.
\<close>

definition status_writes ::
  "'w pool \<Rightarrow> 'w batch list \<Rightarrow> nat list \<Rightarrow> 'w list \<Rightarrow> bool list \<Rightarrow> error + (nat list \<times> nat list)" where
  "status_writes pl batches sched windows status_before =
     (case accelerator_phase windows batches sched status_before of
        Inl e \<Rightarrow> Inl e
      | Inr s \<Rightarrow>
          (case fallback pl windows (window_consensus_status s) of
             Inl e \<Rightarrow> Inl e
           | Inr (status, tasks) \<Rightarrow> Inr (map fst (accelerator_writes s), tasks)))"

section \<open>Descriptions and invariants\<close>

subsection \<open>The output pass by source sequence\<close>

text \<open>
  The description of the output pass: the windows, paired with their status, fall into
  runs, one per source sequence; a run ends at a window that is the last one or whose
  successor has rank 0. Each run yields at most one record.
\<close>

fun attach :: "'a list \<Rightarrow> 'a list list \<Rightarrow> 'a list list" where
  "attach cur [] = []"
| "attach cur (g # gs) = (cur @ g) # gs"

fun runs :: "(window \<times> bool) list \<Rightarrow> (window \<times> bool) list list" where
  "runs [] = []"
| "runs (x # xs) =
     (if xs = [] \<or> rank (fst (hd xs)) = 0 then [x] # runs xs else attach [x] (runs xs))"

definition spec_text :: "(window \<times> bool) list \<Rightarrow> string" where
  "spec_text g = concat (map (consensus \<circ> fst) g)"

definition spec_succeeded :: "(window \<times> bool) list \<Rightarrow> nat" where
  "spec_succeeded g = length (filter snd g)"

definition spec_ratio :: "(window \<times> bool) list \<Rightarrow> rat" where
  "spec_ratio g = of_nat (spec_succeeded g) / of_nat (rank (fst (last g)) + 1)"

definition spec_record :: "polisher \<Rightarrow> (window \<times> bool) list \<Rightarrow> sequence" where
  "spec_record p g =
     createSequence
       (sequences_name p (window_id (fst (last g)))
        @ tags p (spec_text g) (fst (last g)) (spec_ratio g))
       (spec_text g)"

definition spec_emit :: "polisher \<Rightarrow> bool \<Rightarrow> (window \<times> bool) list \<Rightarrow> sequence list" where
  "spec_emit p dr g = (if dr \<and> spec_ratio g \<le> 0 then [] else [spec_record p g])"

definition spec_kept :: "bool \<Rightarrow> (window \<times> bool) list \<Rightarrow> bool" where
  "spec_kept dr g = (\<not> dr \<or> 0 < spec_succeeded g)"

text \<open>
  The loop over the zipped list, the step between the indexed loop and the runs.
\<close>

fun asm_list ::
  "polisher \<Rightarrow> bool \<Rightarrow> (window \<times> bool) list \<Rightarrow> string \<Rightarrow> nat \<Rightarrow> sequence list \<Rightarrow> sequence list" where
  "asm_list p dr [] pd num dst = dst"
| "asm_list p dr (x # xs) pd num dst =
     (let num' = u32 (num + (if snd x then 1 else 0));
          pd' = pd @ consensus (fst x)
      in if xs = [] \<or> rank (fst (hd xs)) = 0
         then asm_list p dr xs [] 0 (close_out p dr (fst x) pd' num' dst)
         else asm_list p dr xs pd' num' dst)"

subsection \<open>The fallback by index\<close>

text \<open>The value a fallback task writes for index \<open>k\<close>.\<close>

definition recomputed :: "'w pool \<Rightarrow> 'w list \<Rightarrow> nat \<Rightarrow> bool" where
  "recomputed pl windows k =
     (case thread_to_id pl (worker_of_task pl k) of
        None \<Rightarrow> False
      | Some engine \<Rightarrow> generate_consensus pl engine (windows ! k))"

text \<open>
  Index \<open>k\<close> is still false and its task runs on a thread without an engine.
\<close>

definition no_context :: "'w pool \<Rightarrow> bool list \<Rightarrow> nat \<Rightarrow> bool" where
  "no_context pl status k = (\<not> status ! k \<and> thread_to_id pl (worker_of_task pl k) = None)"

subsection \<open>Ranges and writes of the runners of polish\<close>

text \<open>A list of ranges in which each range starts where the one before ended.\<close>

fun chain :: "nat \<Rightarrow> index_range list \<Rightarrow> nat \<Rightarrow> bool" where
  "chain a [] b = (a = b)"
| "chain a ((x, y) # rs) b = (x = a \<and> x \<le> y \<and> chain y rs b)"

text \<open>
  The indices a runner is still to assign: the range it holds while it executes its batch,
  the rest of the range while it copies the results.
\<close>

definition pending_of :: "pc \<Rightarrow> nat list" where
  "pending_of place =
     (case place of
        Executing first second \<Rightarrow> [first..<second]
      | Copying first results i \<Rightarrow> [first + i..<first + length results]
      | Storing first results i word \<Rightarrow> [first + i..<first + length results]
      | _ \<Rightarrow> [])"

definition pending :: "('w batch \<times> pc) list \<Rightarrow> nat multiset" where
  "pending procs = mset (concat (map (pending_of \<circ> snd) procs))"

text \<open>
  What holds of the place of a runner, for a status vector of \<open>len\<close> flags, the shared index
  \<open>n\<close> and the assignments \<open>written\<close> so far: a range held is not empty and ends at or
  before the shared index; the copy loop is within the results, which end at or before the
  shared index; a word held by a runner has the size of the slice it was read from, and a
  flag that is true in it was assigned true by some runner.
\<close>

fun place_ok :: "nat \<Rightarrow> nat \<Rightarrow> (nat \<times> bool) list \<Rightarrow> pc \<Rightarrow> bool" where
  "place_ok len n written (Executing a e) = (a < e \<and> e \<le> n)"
| "place_ok len n written (Copying first results i) =
     (i \<le> length results \<and> first + length results \<le> n)"
| "place_ok len n written (Storing first results i word) =
     (i < length results \<and> first + length results \<le> n
      \<and> length word = min word_bits (len - word_start (first + i))
      \<and> (\<forall>q<length word. word ! q \<longrightarrow> (word_start (first + i) + q, True) \<in> set written))"
| "place_ok len n written Filling = True"
| "place_ok len n written Finished = True"
| "place_ok len n written (Threw e) = True"

text \<open>
  What every step of a runner keeps: the status vector has the size of the collection; the
  index is within the collection; the indices assigned so far and those still to be
  assigned are distinct indices below the shared index; the place of every runner is as
  above; a flag that is true in the status vector was assigned true by some runner.
\<close>

definition writes_inv :: "'w list \<Rightarrow> 'w poa_state \<Rightarrow> bool" where
  "writes_inv ws s =
     (length (window_consensus_status s) = length ws
      \<and> next_window_index s \<le> u32 (length ws)
      \<and> mset (map fst (accelerator_writes s)) + pending (batch_processors s)
          \<subseteq># mset [0..<next_window_index s]
      \<and> (\<forall>p \<in> set (batch_processors s).
            place_ok (length ws) (next_window_index s) (accelerator_writes s) (snd p))
      \<and> (\<forall>i<length ws. window_consensus_status s ! i
            \<longrightarrow> (i, True) \<in> set (accelerator_writes s)))"

text \<open>
  What every step keeps when the batches behave (an empty batch accepts any item, an
  execution reports one flag per item held): no runner has thrown, a runner that executes
  holds as many items as its range has indices, and once a runner has left its loop the
  index is at the end of the collection.
\<close>

definition cover_inv :: "'w list \<Rightarrow> 'w poa_state \<Rightarrow> bool" where
  "cover_inv ws s =
     ((\<forall>q \<in> set (batch_processors s).
          (\<forall>e. snd q \<noteq> Threw e) \<and> (\<forall>w. fits (fst q) [] w)
          \<and> (\<forall>h. length (gpu_kernel (fst q) h) = length h)
          \<and> (\<forall>a e. snd q = Executing a e \<longrightarrow> length (held (fst q)) = e - a))
      \<and> ((\<exists>q \<in> set (batch_processors s). snd q = Finished)
            \<longrightarrow> next_window_index s = u32 (length ws)))"




subsection \<open>Overlaps in the batches of the aligners\<close>

text \<open>
  The overlaps a runner is about to align, and what every step keeps: the overlaps aligned
  so far and those about to be aligned are the overlaps below the shared index, each once;
  no runner has thrown; an empty batch accepts any overlap; once a runner has left its loop
  the index is at the end of the collection; no executed batch was empty.
\<close>

definition waiting_of :: "'o batch \<times> aligner_place \<Rightarrow> 'o list" where
  "waiting_of q = (if snd q = AAligning then held (fst q) else [])"

definition waiting :: "('o batch \<times> aligner_place) list \<Rightarrow> 'o multiset" where
  "waiting procs = mset (concat (map waiting_of procs))"

definition align_inv :: "'o list \<Rightarrow> 'o align_state \<Rightarrow> bool" where
  "align_inv ovs s =
     (next_overlap_index s \<le> u32 (length ovs)
      \<and> mset (concat (aligned s)) + waiting (batch_aligners s) = mset (take (next_overlap_index s) ovs)
      \<and> (\<forall>q \<in> set (batch_aligners s). (\<forall>e. snd q \<noteq> AThrew e) \<and> (\<forall>w. fits (fst q) [] w))
      \<and> ((\<exists>q \<in> set (batch_aligners s). snd q = AFinished) \<longrightarrow> next_overlap_index s = u32 (length ovs))
      \<and> [] \<notin> set (aligned s)
      \<and> (\<forall>q \<in> set (batch_aligners s). snd q = AAligning \<longrightarrow> held (fst q) \<noteq> []))"

section \<open>Example inputs\<close>

definition example_polisher :: polisher where
  "example_polisher =
     \<lparr>type_kF = False, sequences_name = (\<lambda>i. ''contig'' @ to_string i),
      targets_coverages = (\<lambda>i. 7),
      double_to_string = (\<lambda>r. to_string (nat \<lfloor>r * 1000000\<rfloor>) @ ''e-6'')\<rparr>"

definition example_window :: "nat \<Rightarrow> nat \<Rightarrow> string \<Rightarrow> window" where
  "example_window i r c = \<lparr>window_id = i, rank = r, consensus = c\<rparr>"

definition five_windows :: "window list" where
  "five_windows = [example_window 0 0 ''A'', example_window 0 (Suc 0) ''C'', example_window 0 2 ''G'',
                   example_window (Suc 0) 0 ''T'', example_window (Suc 0) (Suc 0) ''N'']"

definition four_windows :: "window list" where
  "four_windows = [example_window 0 0 ''A'', example_window 0 (Suc 0) ''C'', example_window 0 2 ''G'',
                   example_window (Suc 0) 0 ''T'']"

definition twenty_windows :: "window list" where
  "twenty_windows =
     [example_window 0 0 ''A'', example_window 0 1 ''A'', example_window 0 2 ''A'', example_window 0 3 ''A'',
      example_window 0 4 ''A'', example_window 0 5 ''A'', example_window 0 6 ''A'', example_window 0 7 ''A'',
      example_window 0 8 ''A'', example_window 0 9 ''A'', example_window 0 10 ''A'', example_window 0 11 ''A'',
      example_window 0 12 ''A'', example_window 0 13 ''A'', example_window 0 14 ''A'', example_window 0 15 ''A'',
      example_window 0 16 ''A'', example_window 0 17 ''A'', example_window 0 18 ''A'', example_window 0 19 ''A'']"

text \<open>A unit of fixed capacity \<open>c\<close> whose gpu_kernel reports \<open>flag\<close> for each item.\<close>

definition fixed_batch :: "nat \<Rightarrow> ('w \<Rightarrow> bool) \<Rightarrow> 'w batch" where
  "fixed_batch c flag = \<lparr>fits = (\<lambda>h w. length h < c), gpu_kernel = map flag, held = []\<rparr>"

definition example_batches :: "window batch list" where
  "example_batches = [fixed_batch 8 (\<lambda>w. True), fixed_batch 8 (\<lambda>w. False)]"

text \<open>
  A batch of capacity 256 whose execution returns an empty results vector.
\<close>

definition short_results_batch :: "window batch" where
  "short_results_batch = \<lparr>fits = (\<lambda>h w. length h < 256), gpu_kernel = (\<lambda>h. []), held = []\<rparr>"

definition example_pool :: "window pool" where
  "example_pool = \<lparr>worker_of_task = (\<lambda>j. 0), thread_to_id = [0 \<mapsto> 0],
                    generate_consensus = (\<lambda>engine w. True)\<rparr>"

definition example_overlaps :: "nat list" where
  "example_overlaps = [10, 20, 30, 40, 50]"

definition example_aligners :: "nat batch list" where
  "example_aligners = [fixed_batch 2 (\<lambda>ov. True), fixed_batch 2 (\<lambda>ov. True)]"

text \<open>
  The equations that evaluate a run of the runners on a concrete input.
\<close>

lemmas run_eval = accelerator_phase_def run_batches.simps start_state_def resize_def active_def pick_def
       process_batch_step_def fill_next_batch_windows_def logger_step_def RACON_LOGGER_BIN_SIZE_def
       fill_loop.simps fixed_batch_def u32_def sub32_def addWindow_def add_item_def reset_def
       Let_def hasWindows_def generateConsensus_def word_bits_def word_start_def load_word_def
       assign_bit_def store_word_def

lemmas align_eval = find_overlap_breaking_points_def run_aligners.simps start_aligners_def
        active_aligners_def pick_def process_batch_overlaps_step_def fill_next_batch_overlaps_def
        fill_loop.simps fixed_batch_def u32_def sub32_def addOverlap_def add_item_def reset_def
        Let_def hasOverlaps_def

section \<open>Properties of the model\<close>

subsection \<open>The loop of the output pass computes the records of the runs\<close>

lemma assemble_loop_asm_list:
  "length ws \<le> length st \<Longrightarrow> i \<le> length ws \<Longrightarrow>
   assemble_loop p dr ws st i pd num dst = Inr (asm_list p dr (drop i (zip ws st)) pd num dst)"
proof (induction p dr ws st i pd num dst rule: assemble_loop.induct)
  case (1 p dr ws st i pd num dst)
  show ?case
  proof (cases "i < length ws")
    case False
    with 1(4) have "i = length ws" by simp
    then show ?thesis by (subst assemble_loop.simps) simp
  next
    case True
    with 1(3) have ist: "i < length st" by simp
    have d: "drop i (zip ws st) = (ws ! i, st ! i) # drop (Suc i) (zip ws st)"
      using True ist by (simp flip: Cons_nth_drop_Suc)
    have e: "(drop (Suc i) (zip ws st) = []) = (i = length ws - 1)"
      using True ist 1(3) by auto
    have h: "fst (hd (drop (Suc i) (zip ws st))) = ws ! (i + 1)" if "i \<noteq> length ws - 1"
    proof -
      have "Suc i < length (zip ws st)" using that True 1(3) by simp
      then show ?thesis by (simp add: hd_drop_conv_nth)
    qed
    show ?thesis
    proof (cases "i = length ws - 1 \<or> rank (ws ! (i + 1)) = 0")
      case c: True
      have "assemble_loop p dr ws st i pd num dst =
            assemble_loop p dr ws st (i + 1) [] 0
              (close_out p dr (ws ! i) (pd @ consensus (ws ! i)) (u32 (num + (if st ! i then 1 else 0))) dst)"
        using True ist c by (simp add: assemble_loop.simps [of p dr ws st i] Let_def)
      also have "\<dots> = Inr (asm_list p dr (drop (i + 1) (zip ws st)) [] 0
              (close_out p dr (ws ! i) (pd @ consensus (ws ! i)) (u32 (num + (if st ! i then 1 else 0))) dst))"
        using "1.IH"(1) [OF True ist refl refl c] 1(3) True by simp
      finally show ?thesis using c e h by (auto simp: d Let_def)
    next
      case c: False
      have "assemble_loop p dr ws st i pd num dst =
            assemble_loop p dr ws st (i + 1) (pd @ consensus (ws ! i)) (u32 (num + (if st ! i then 1 else 0))) dst"
        using True ist c by (simp add: assemble_loop.simps [of p dr ws st i] Let_def)
      also have "\<dots> = Inr (asm_list p dr (drop (i + 1) (zip ws st)) (pd @ consensus (ws ! i)) (u32 (num + (if st ! i then 1 else 0))) dst)"
        using "1.IH"(2) [OF True ist refl refl c] 1(3) True by simp
      finally show ?thesis using c e h by (auto simp: d Let_def)
    qed
  qed
qed

lemma attach_attach: "attach cur (attach [x] gs) = attach (cur @ [x]) gs"
  by (cases gs) simp_all

lemma attach_Nil: "attach [] gs = gs"
  by (cases gs) simp_all

lemma close_out_spec:
  "spec_succeeded cur + 1 < 2 ^ 32 \<Longrightarrow>
   close_out p dr (fst x) (spec_text cur @ consensus (fst x))
     (u32 (spec_succeeded cur + (if snd x then 1 else 0))) dst
   = dst @ spec_emit p dr (cur @ [x])"
  by (auto simp: close_out_def spec_emit_def spec_record_def spec_ratio_def spec_text_def
        spec_succeeded_def polished_ratio_def u32_def Let_def not_le)

lemma asm_list_runs:
  "length cur + length xs < 2 ^ 32 \<Longrightarrow>
   asm_list p dr xs (spec_text cur) (spec_succeeded cur) dst
   = dst @ concat (map (spec_emit p dr) (attach cur (runs xs)))"
proof (induction xs arbitrary: cur dst)
  case Nil
  then show ?case by simp
next
  case (Cons x xs)
  have le: "spec_succeeded cur \<le> length cur"
    by (simp add: spec_succeeded_def)
  with Cons.prems have b: "spec_succeeded cur + 1 < 2 ^ 32" by simp
  show ?case
  proof (cases "xs = [] \<or> rank (fst (hd xs)) = 0")
    case True
    have "asm_list p dr xs [] 0 d = d @ concat (map (spec_emit p dr) (runs xs))" for d
      using Cons.IH [of "[]" d] Cons.prems
      by (simp add: attach_Nil spec_text_def spec_succeeded_def)
    then show ?thesis
      using True close_out_spec [OF b, of p dr x dst]
      by (simp add: Let_def)
  next
    case False
    have t: "spec_text cur @ consensus (fst x) = spec_text (cur @ [x])"
      by (simp add: spec_text_def)
    have s: "u32 (spec_succeeded cur + (if snd x then 1 else 0)) = spec_succeeded (cur @ [x])"
      using b by (simp add: spec_succeeded_def u32_def)
    show ?thesis
      using False Cons.IH [of "cur @ [x]" dst] Cons.prems
      by (simp add: Let_def t s attach_attach del: append_assoc)
  qed
qed

lemma assemble_runs:
  assumes "length ws \<le> length st" and "length ws < 2 ^ 32"
  shows "assemble p dr ws st dst = Inr (dst @ concat (map (spec_emit p dr) (runs (zip ws st))))"
proof -
  have "assemble p dr ws st dst = Inr (asm_list p dr (zip ws st) (spec_text []) (spec_succeeded []) dst)"
    using assms(1) assemble_loop_asm_list [of ws st 0 p dr "[]" 0 dst]
    by (simp add: assemble_def spec_text_def spec_succeeded_def)
  also have "asm_list p dr (zip ws st) (spec_text []) (spec_succeeded []) dst
             = dst @ concat (map (spec_emit p dr) (attach [] (runs (zip ws st))))"
    using assms by (intro asm_list_runs) simp
  finally show ?thesis by (simp add: attach_Nil)
qed

lemma concat_attach: "gs \<noteq> [] \<Longrightarrow> concat (attach cur gs) = cur @ concat gs"
  by (cases gs) simp_all

lemma attach_eq_Nil: "(attach cur gs = []) = (gs = [])"
  by (cases gs) simp_all

lemma runs_eq_Nil: "(runs xs = []) = (xs = [])"
  by (induction xs) (simp_all add: attach_eq_Nil)

lemma concat_runs: "concat (runs xs) = xs"
  by (induction xs) (auto simp: concat_attach runs_eq_Nil)

lemma spec_ratio_pos: "(0 < spec_ratio g) = (0 < spec_succeeded g)"
  by (simp add: spec_ratio_def zero_less_divide_iff)

lemma spec_emit_kept: "spec_emit p dr g = (if spec_kept dr g then [spec_record p g] else [])"
  using spec_ratio_pos [of g] by (cases "0 < spec_ratio g") (auto simp: spec_emit_def spec_kept_def)

lemma concat_spec_emit:
  "concat (map (spec_emit p dr) gs) = map (spec_record p) (filter (spec_kept dr) gs)"
  by (induction gs) (simp_all add: spec_emit_kept)

lemma map_fst_attach: "map (map f) (attach cur gs) = attach (map f cur) (map (map f) gs)"
  by (cases gs) simp_all

lemma runs_map_fst:
  "map fst zs = map fst zs' \<Longrightarrow> map (map fst) (runs zs) = map (map fst) (runs zs')"
proof (induction zs arbitrary: zs')
  case Nil
  then show ?case by simp
next
  case (Cons z zs)
  then obtain z' zs'' where z': "zs' = z' # zs''" "fst z = fst z'" "map fst zs = map fst zs''"
    by (cases zs') auto
  have e: "(zs = []) = (zs'' = [])"
    using z'(3) by (cases zs; cases zs'') simp_all
  have h: "zs \<noteq> [] \<Longrightarrow> fst (hd zs) = fst (hd zs'')"
    using z'(3) by (cases zs; cases zs'') simp_all
  show ?case
    using Cons.IH [OF z'(3)] z' e h by (auto simp: map_fst_attach)
qed

lemma spec_text_map_fst: "spec_text g = concat (map consensus (map fst g))"
  by (simp add: spec_text_def)

lemma concat_spec_text_runs: "concat (map spec_text (runs zs)) = concat (map (consensus \<circ> fst) zs)"
proof -
  have "concat (map spec_text gs) = concat (map (consensus \<circ> fst) (concat gs))" for gs
    by (induction gs) (simp_all add: spec_text_def comp_def)
  from this [of "runs zs"] show ?thesis by (simp add: concat_runs)
qed

subsection \<open>The runners of polish\<close>

lemma run_batches_invariant:
  assumes "run_batches ws sched s = Inr t" and "P s"
    and "\<And>r s s'. P s \<Longrightarrow> r < length (batch_processors s) \<Longrightarrow>
           running (snd (batch_processors s ! r)) \<Longrightarrow> process_batch_step ws r s = Inr s' \<Longrightarrow> P s'"
  shows "P t \<and> active (batch_processors t) = []"
  using assms
proof (induction ws sched s rule: run_batches.induct)
  case (1 ws sched s)
  show ?case
  proof (cases "active (batch_processors s)")
    case Nil
    with 1(2,3) show ?thesis by (simp add: run_batches.simps [of ws sched s])
  next
    case (Cons a as)
    with 1(2) obtain s' where s': "process_batch_step ws (pick sched (a # as)) s = Inr s'"
       "run_batches ws (tl sched) s' = Inr t"
      by (auto simp: run_batches.simps [of ws sched s] split: sum.splits)
    from pick_active [OF Cons] 1(4) [OF 1(3) _ _ s'(1)] have "P s'" by simp
    from "1.IH" [OF Cons s'(1) s'(2) this 1(4)] show ?thesis by simp
  qed
qed

lemma run_batches_Inr:
  "logger_step ws \<noteq> 0 \<Longrightarrow> \<exists>t. run_batches ws sched s = Inr t"
proof (induction ws sched s rule: run_batches.induct)
  case (1 ws sched s)
  show ?case
  proof (cases "active (batch_processors s)")
    case Nil
    then show ?thesis by (simp add: run_batches.simps [of ws sched s])
  next
    case (Cons a as)
    have "\<exists>s'. process_batch_step ws r s = Inr s'" for r
      using fill_windows_Inl [of ws "(next_window_index s, last_logger_count s)"] 1(2)
      by (auto simp: process_batch_step_def Let_def split: prod.splits pc.splits sum.splits)
    then obtain s' where s': "process_batch_step ws (pick sched (a # as)) s = Inr s'" by blast
    from "1.IH" [OF Cons s' 1(2)] s' Cons show ?thesis
      by (simp add: run_batches.simps [of ws sched s])
  qed
qed

lemma chain_append: "chain a (rs @ [(x, y)]) b = (chain a rs x \<and> x \<le> y \<and> y = b)"
  by (induction a rs b rule: chain.induct) auto

lemma step_chain:
  assumes "chain 0 (returned_ranges s) (next_window_index s)"
    and "process_batch_step ws r s = Inr s'"
  shows "chain 0 (returned_ranges s') (next_window_index s')"
proof -
  obtain b place where p: "batch_processors s ! r = (b, place)"
    by (cases "batch_processors s ! r")
  show ?thesis
  proof (cases place)
    case Filling
    show ?thesis
    proof (cases "fill_next_batch_windows ws (next_window_index s, last_logger_count s) b")
      case (Inl e)
      with assms p Filling show ?thesis
        by (auto simp: process_batch_step_def split: if_splits)
    next
      case (Inr res)
      obtain b' n' l' rng where res: "res = (b', (n', l'), rng)" by (cases res) auto
      note f = fill_windows_Inr [OF Inr [unfolded res]]
      have "returned_ranges s' = returned_ranges s @ [(next_window_index s, n')]"
           "next_window_index s' = n'"
        using assms(2) p Filling Inr res f by (auto simp: process_batch_step_def)
      with f assms(1) show ?thesis by (simp add: chain_append)
    qed
  next
    case (Executing first second)
    with assms p show ?thesis
      by (auto simp: process_batch_step_def Let_def split: if_splits)
  qed (use assms p in \<open>auto simp: process_batch_step_def Let_def split: if_splits\<close>)
qed

lemma chain_nth:
  "chain a rs b \<Longrightarrow>
     (\<forall>k<length rs. fst (rs ! k) \<le> snd (rs ! k))
     \<and> (\<forall>k. Suc k < length rs \<longrightarrow> fst (rs ! Suc k) = snd (rs ! k))
     \<and> (rs \<noteq> [] \<longrightarrow> fst (hd rs) = a \<and> snd (last rs) = b)"
proof (induction a rs b rule: chain.induct)
  case (1 a b)
  then show ?case by simp
next
  case (2 a x y rs b)
  then have c: "chain y rs b" and xy: "x = a" "x \<le> y" by auto
  note ih = "2.IH" [OF c]
  have h: "rs \<noteq> [] \<Longrightarrow> fst (rs ! 0) = y" using ih by (cases rs) auto
  have e: "rs = [] \<Longrightarrow> y = b" using c by simp
  have p1: "fst (((x, y) # rs) ! k) \<le> snd (((x, y) # rs) ! k)" if "k < length ((x, y) # rs)" for k
    using that ih xy by (cases k) auto
  have p2: "fst (((x, y) # rs) ! Suc k) = snd (((x, y) # rs) ! k)" if "Suc k < length ((x, y) # rs)" for k
    using that ih h by (cases k) auto
  have p3: "fst (hd ((x, y) # rs)) = a \<and> snd (last ((x, y) # rs)) = b"
    using ih xy e by auto
  from p1 p2 p3 show ?case by blast
qed

lemma chain_le: "chain a rs b \<Longrightarrow> a \<le> b"
  by (induction a rs b rule: chain.induct) auto

lemma chain_concat: "chain a rs b \<Longrightarrow> concat (map (\<lambda>(x, y). [x..<y]) rs) = [a..<b]"
proof (induction a rs b rule: chain.induct)
  case (1 a b)
  then show ?case by simp
next
  case (2 a x y rs b)
  then have c: "chain y rs b" "x = a" "x \<le> y" by auto
  from chain_le [OF c(1)] have "y \<le> b" .
  with "2.IH" [OF c(1)] c(2,3) show ?case
    using upt_add_eq_append [of a y "b - y"] by simp
qed

lemma pending_update:
  "r < length procs \<Longrightarrow>
   pending (procs[r := x]) + mset (pending_of (snd (procs ! r)))
   = pending procs + mset (pending_of (snd x))"
  unfolding pending_def
  by (induction procs arbitrary: r) (auto split: nat.splits simp: nth_Cons')

lemma pending_update_le:
  assumes "r < length procs"
    and "mset (pending_of (snd x)) \<subseteq># mset (pending_of (snd (procs ! r)))"
  shows "pending (procs[r := x]) \<subseteq># pending procs"
proof -
  have "pending (procs[r := x]) + mset (pending_of (snd (procs ! r)))
        = pending procs + mset (pending_of (snd x))"
    using assms(1) by (rule pending_update)
  also have "\<dots> \<subseteq># pending procs + mset (pending_of (snd (procs ! r)))"
    using assms(2) by (rule subset_mset.add_left_mono)
  finally show ?thesis by (simp del: mset_upt)
qed

lemma word_bits_pos: "0 < word_bits"
  by (simp add: word_bits_def)

lemma word_start_le: "word_start j \<le> j"
  by (simp add: word_start_def)

lemma word_start_mod: "word_start j + j mod word_bits = j"
  by (simp add: word_start_def)

lemma length_load_word: "length (load_word st j) = min word_bits (length st - word_start j)"
  by (simp add: load_word_def)

lemma load_word_nth:
  assumes "q < length (load_word st j)"
  shows "load_word st j ! q = st ! (word_start j + q)"
proof -
  from assms have "word_start j \<le> length st" "q < word_bits"
    by (auto simp: load_word_def)
  then show ?thesis by (simp add: load_word_def)
qed

text \<open>
  Writing a word back changes the flag assigned and puts every other flag of the word back
  to what it was when the word was read.
\<close>

lemma store_word_assign:
  assumes j: "j < length st" and w: "length w = min word_bits (length st - word_start j)"
  shows "length (store_word st j (assign_bit w j v)) = length st
     \<and> (\<forall>k<length st. store_word st j (assign_bit w j v) ! k
           = (if k = j then v
              else if word_start j \<le> k \<and> k < word_start j + length w then w ! (k - word_start j)
              else st ! k))"
proof -
  define b where "b = word_start j"
  define m where "m = length w"
  have bj: "b + j mod word_bits = j" unfolding b_def by (rule word_start_mod)
  have bl: "b \<le> j" unfolding b_def by (rule word_start_le)
  have m: "m = min word_bits (length st - b)" using w by (simp add: m_def b_def)
  have jm: "j mod word_bits < m"
  proof -
    have "j mod word_bits < word_bits" using word_bits_pos by simp
    moreover have "j mod word_bits < length st - b" using bj j by linarith
    ultimately show ?thesis using m by simp
  qed
  have ml: "b + m \<le> length st" using m bl j by simp
  have sw: "store_word st j (assign_bit w j v) = take b st @ w[j mod word_bits := v] @ drop (b + m) st"
    by (simp add: store_word_def assign_bit_def b_def m_def)
  have len: "length (store_word st j (assign_bit w j v)) = length st"
    unfolding sw using ml by (simp add: m_def)
  have nth: "store_word st j (assign_bit w j v) ! k
       = (if k = j then v else if b \<le> k \<and> k < b + m then w ! (k - b) else st ! k)"
    if k: "k < length st" for k
  proof -
    consider "k < b" | "b \<le> k" "k < b + m" | "b + m \<le> k" by linarith
    then show ?thesis
    proof cases
      case 1
      then have "k \<noteq> j" using bl by simp
      with 1 ml show ?thesis unfolding sw by (simp add: nth_append)
    next
      case 2
      have e: "(k - b = j mod word_bits) = (k = j)" using 2 bj by linarith
      have kb: "k - b < length w" using 2 by (simp add: m_def)
      have "(take b st @ w[j mod word_bits := v] @ drop (b + m) st) ! k
            = (w[j mod word_bits := v]) ! (k - b)"
        using 2 ml kb by (simp add: nth_append m_def)
      also have "\<dots> = (if k = j then v else w ! (k - b))"
        using 2 jm e by (auto simp: nth_list_update m_def)
      finally show ?thesis unfolding sw using 2 by simp
    next
      case 3
      then have kj: "k \<noteq> j" using jm bj by linarith
      have nk: "\<not> k < b" "\<not> k - b < length w" using 3 unfolding m_def by linarith+
      have "(take b st @ w[j mod word_bits := v] @ drop (b + m) st) ! k
            = drop (b + m) st ! (k - b - m)"
        using nk ml by (simp add: nth_append m_def)
      also have "\<dots> = st ! k" using 3 ml k by simp
      finally show ?thesis unfolding sw using 3 kj by simp
    qed
  qed
  show ?thesis using len nth by (simp add: b_def m_def)
qed

lemma mset_upt_split: "n \<le> n' \<Longrightarrow> mset [0..<n'] = mset [0..<n] + mset [n..<n']"
  using upt_add_eq_append [of 0 n "n' - n"] by simp

lemma place_ok_mono:
  "place_ok len n wr pl \<Longrightarrow> n \<le> n' \<Longrightarrow> set wr \<subseteq> set wr' \<Longrightarrow> place_ok len n' wr' pl"
  by (cases pl) auto

lemma set_update_all:
  assumes "\<forall>q \<in> set procs. P q" and "P x"
  shows "\<forall>q \<in> set (procs[r := x]). P q"
  using assms set_update_subset_insert [of procs r x] by auto

lemma step_writes_inv:
  assumes inv: "writes_inv ws s" and r: "r < length (batch_processors s)"
    and step: "process_batch_step ws r s = Inr s'"
  shows "writes_inv ws s'"
proof -
  obtain b place where p: "batch_processors s ! r = (b, place)"
    by (cases "batch_processors s ! r")
  let ?n = "next_window_index s"
  let ?wr = "accelerator_writes s"
  let ?st = "window_consensus_status s"
  from inv have L: "length ?st = length ws"
    and N: "?n \<le> u32 (length ws)"
    and M: "mset (map fst ?wr) + pending (batch_processors s) \<subseteq># mset [0..<?n]"
    and E: "\<forall>q \<in> set (batch_processors s). place_ok (length ws) ?n ?wr (snd q)"
    and Z: "\<And>i. i < length ws \<Longrightarrow> ?st ! i \<Longrightarrow> (i, True) \<in> set ?wr"
    by (auto simp: writes_inv_def)
  have bmem: "(b, place) \<in> set (batch_processors s)" using p r by (metis nth_mem)
  with E have pk: "place_ok (length ws) ?n ?wr place" by auto
  have n32: "?n < 2 ^ 32" using N u32_lt [of "length ws"] by simp
  have nl: "?n \<le> length ws" using N u32_le [of "length ws"] by simp
  note pu = pending_update [OF r, unfolded p snd_conv]
  have same: "writes_inv ws s'"
    if s': "s' = s\<lparr>batch_processors := (batch_processors s)[r := (b, place')]\<rparr>"
      and sub: "mset (pending_of place') \<subseteq># mset (pending_of place)"
      and ok: "place_ok (length ws) ?n ?wr place'" for place'
  proof -
    have "pending ((batch_processors s)[r := (b, place')]) \<subseteq># pending (batch_processors s)"
      using pending_update_le [OF r, of "(b, place')"] sub p by simp
    then have "mset (map fst ?wr) + pending ((batch_processors s)[r := (b, place')])
            \<subseteq># mset (map fst ?wr) + pending (batch_processors s)"
      by (rule subset_mset.add_left_mono)
    from this M have M': "mset (map fst ?wr) + pending ((batch_processors s)[r := (b, place')])
            \<subseteq># mset [0..<?n]"
      by (rule subset_mset.order_trans)
    have E': "\<forall>q \<in> set ((batch_processors s)[r := (b, place')]).
                place_ok (length ws) ?n ?wr (snd q)"
      using E ok by (intro set_update_all) simp_all
    show ?thesis
      unfolding writes_inv_def s' using L N M' E' Z by simp
  qed
  show ?thesis
  proof (cases place)
    case Filling
    show ?thesis
    proof (cases "fill_next_batch_windows ws (?n, last_logger_count s) b")
      case (Inl e)
      with fill_windows_Inl [OF Inl] step p Filling show ?thesis
        by (simp add: process_batch_step_def)
    next
      case (Inr res)
      obtain b' n' l' rng where res: "res = (b', (n', l'), rng)" by (cases res) auto
      note f = fill_windows_Inr [OF Inr [unfolded res]]
      define place' where "place' = (if hasWindows b' then Executing ?n n' else Finished)"
      have s': "s' = s\<lparr>next_window_index := n', last_logger_count := l',
                      batch_processors := (batch_processors s)[r := (b', place')],
                      returned_ranges := returned_ranges s @ [rng]\<rparr>"
        using step p Filling Inr res f by (auto simp: process_batch_step_def place'_def)
      have nn: "?n \<le> n'" "n' \<le> u32 (length ws)" using f N by auto
      have lt: "hasWindows b' \<Longrightarrow> ?n < n'"
        using f by (auto simp: hasWindows_def intro: le_neq_trans)
      have pp: "mset (pending_of place') \<subseteq># mset [?n..<n']"
        by (simp add: place'_def pending_of_def)
      have "pending ((batch_processors s)[r := (b', place')])
            = pending (batch_processors s) + mset (pending_of place')"
        using pu [of "(b', place')"] Filling by (simp add: pending_of_def)
      then have "mset (map fst ?wr) + pending ((batch_processors s)[r := (b', place')])
            = (mset (map fst ?wr) + pending (batch_processors s)) + mset (pending_of place')"
        by (simp add: ac_simps)
      also have "\<dots> \<subseteq># mset [0..<?n] + mset [?n..<n']"
        using M pp by (rule subset_mset.add_mono)
      also have "\<dots> = mset [0..<n']" using mset_upt_split [OF nn(1)] by simp
      finally have M': "mset (map fst ?wr) + pending ((batch_processors s)[r := (b', place')])
            \<subseteq># mset [0..<n']" .
      have new: "place_ok (length ws) n' ?wr place'"
        using lt by (simp add: place'_def)
      have old: "\<forall>q \<in> set (batch_processors s). place_ok (length ws) n' ?wr (snd q)"
        using E nn(1) by (auto intro: place_ok_mono)
      have E': "\<forall>q \<in> set ((batch_processors s)[r := (b', place')]).
                  place_ok (length ws) n' ?wr (snd q)"
        using old new by (intro set_update_all) simp_all
      show ?thesis
        unfolding writes_inv_def s' using L nn M' E' Z by simp
    qed
  next
    case (Executing a e)
    from pk Executing have ae: "a < e" "e \<le> ?n" by auto
    have e32: "e < 2 ^ 32" using ae n32 by simp
    have sub: "sub32 e a = e - a" using ae e32 by (simp add: sub32_le)
    show ?thesis
    proof (cases "length (generateConsensus b) \<noteq> sub32 e a")
      case True
      then have s': "s' = s\<lparr>batch_processors := (batch_processors s)[r := (b, Threw RuntimeError)]\<rparr>"
        using step p Executing by (simp add: process_batch_step_def Let_def)
      show ?thesis
        by (rule same [OF s']) (simp_all add: pending_of_def)
    next
      case False
      then have len: "length (generateConsensus b) = e - a" using sub by simp
      have s': "s' = s\<lparr>batch_processors := (batch_processors s)
                        [r := (b, Copying a (generateConsensus b) 0)]\<rparr>"
        using step p Executing False by (simp add: process_batch_step_def Let_def)
      have ea: "a + (e - a) = e" using ae by simp
      show ?thesis
        by (rule same [OF s']) (use len ae ea Executing in \<open>simp_all add: pending_of_def del: mset_upt\<close>)
    qed
  next
    case (Copying f res i)
    from pk Copying have il: "i \<le> length res" "f + length res \<le> ?n" by auto
    show ?thesis
    proof (cases "i < length res")
      case False
      then have s': "s' = s\<lparr>batch_processors := (batch_processors s)[r := (b, Filling)]\<rparr>"
        using step p Copying by (simp add: process_batch_step_def)
      show ?thesis
        by (rule same [OF s']) (simp_all add: pending_of_def)
    next
      case True
      have fi: "f + i < ?n" using True il by simp
      have u: "u32 (f + i) = f + i" using fi n32 by (simp add: u32_id)
      have jl: "f + i < length ?st" using fi nl L by simp
      have s': "s' = s\<lparr>batch_processors := (batch_processors s)
                        [r := (b, Storing f res i (load_word ?st (f + i)))]\<rparr>"
        using step p Copying True u jl by (simp add: process_batch_step_def Let_def)
      have hw: "(word_start (f + i) + q, True) \<in> set ?wr"
        if "q < length (load_word ?st (f + i))" "load_word ?st (f + i) ! q" for q
      proof -
        from that(1) have "word_start (f + i) + q < length ws"
          using L by (auto simp: length_load_word)
        moreover from that have "?st ! (word_start (f + i) + q)" by (simp add: load_word_nth)
        ultimately show ?thesis by (rule Z)
      qed
      show ?thesis
        by (rule same [OF s'])
           (use True il Copying L hw in \<open>simp_all add: pending_of_def length_load_word del: mset_upt\<close>)
    qed
  next
    case (Storing f res i w)
    from pk Storing have il: "i < length res" "f + length res \<le> ?n"
      and wl: "length w = min word_bits (length ws - word_start (f + i))"
      and wt: "\<And>q. q < length w \<Longrightarrow> w ! q \<Longrightarrow> (word_start (f + i) + q, True) \<in> set ?wr"
      by auto
    have fi: "f + i < ?n" using il by simp
    have u: "u32 (f + i) = f + i" using fi n32 by (simp add: u32_id)
    have jl: "f + i < length ?st" using fi nl L by simp
    define st' where "st' = store_word ?st (f + i) (assign_bit w (f + i) (res ! i))"
    define wr' where "wr' = ?wr @ [(f + i, res ! i)]"
    have s': "s' = s\<lparr>window_consensus_status := st', accelerator_writes := wr',
                    batch_processors := (batch_processors s)[r := (b, Copying f res (i + 1))]\<rparr>"
      using step p Storing u by (simp add: process_batch_step_def Let_def st'_def wr'_def)
    from store_word_assign [OF jl, of w "res ! i"] wl L
    have sl: "length st' = length ws"
      and sn: "\<And>k. k < length ws \<Longrightarrow> st' ! k
           = (if k = f + i then res ! i
              else if word_start (f + i) \<le> k \<and> k < word_start (f + i) + length w
                   then w ! (k - word_start (f + i))
              else ?st ! k)"
      by (simp_all add: st'_def)
    have up: "[f + i..<f + length res] = (f + i) # [f + (i + 1)..<f + length res]"
      using il by (simp add: upt_conv_Cons)
    have "pending ((batch_processors s)[r := (b, Copying f res (i + 1))])
            + mset ((f + i) # [f + (i + 1)..<f + length res])
          = pending (batch_processors s) + mset [f + (i + 1)..<f + length res]"
      using pu [of "(b, Copying f res (i + 1))"] Storing up by (simp add: pending_of_def del: mset_upt)
    then have "pending ((batch_processors s)[r := (b, Copying f res (i + 1))]) + {#f + i#}
          = pending (batch_processors s)"
      by (simp del: mset_upt)
    then have eq: "mset (map fst wr') + pending ((batch_processors s)[r := (b, Copying f res (i + 1))])
          = mset (map fst ?wr) + pending (batch_processors s)"
      by (simp add: wr'_def ac_simps)
    have M': "mset (map fst wr') + pending ((batch_processors s)[r := (b, Copying f res (i + 1))])
            \<subseteq># mset [0..<?n]"
      unfolding eq by (rule M)
    have old: "\<forall>q \<in> set (batch_processors s). place_ok (length ws) ?n wr' (snd q)"
      using E by (auto intro: place_ok_mono simp: wr'_def)
    have E': "\<forall>q \<in> set ((batch_processors s)[r := (b, Copying f res (i + 1))]).
                place_ok (length ws) ?n wr' (snd q)"
      using old il by (intro set_update_all) simp_all
    have Z': "(k, True) \<in> set wr'" if k: "k < length ws" "st' ! k" for k
    proof (cases "k = f + i")
      case True
      with sn [OF k(1)] k(2) show ?thesis by (simp add: wr'_def)
    next
      case False
      show ?thesis
      proof (cases "word_start (f + i) \<le> k \<and> k < word_start (f + i) + length w")
        case True
        with sn [OF k(1)] k(2) False have "w ! (k - word_start (f + i))" by simp
        moreover have "k - word_start (f + i) < length w" using True by linarith
        ultimately have "(word_start (f + i) + (k - word_start (f + i)), True) \<in> set ?wr"
          using wt by blast
        with True show ?thesis by (simp add: wr'_def)
      next
        case f: False
        with sn [OF k(1)] k(2) False have "?st ! k" by simp
        from Z [OF k(1) this] show ?thesis by (simp add: wr'_def)
      qed
    qed
    show ?thesis
      unfolding writes_inv_def s' using sl N M' E' Z' by simp
  next
    case Finished
    with step p inv show ?thesis by (simp add: process_batch_step_def)
  next
    case (Threw e)
    with step p inv show ?thesis by (simp add: process_batch_step_def)
  qed
qed

lemma start_writes_inv: "writes_inv ws (start_state (resize [] (length ws) False) batches)"
proof -
  have "pending (map (\<lambda>b. (b, Filling)) batches) = {#}" for batches :: "'a batch list"
    by (induction batches) (simp_all add: pending_def pending_of_def)
  then show ?thesis
    by (auto simp: writes_inv_def start_state_def resize_def)
qed

lemma accelerator_phase_inv:
  assumes "accelerator_phase ws batches sched [] = Inr s"
  shows "writes_inv ws s \<and> active (batch_processors s) = []"
  using run_batches_invariant [OF assms [unfolded accelerator_phase_def], of "writes_inv ws"]
    start_writes_inv step_writes_inv by blast

lemma accelerator_phase_chain:
  assumes "accelerator_phase ws batches sched status_before = Inr s"
  shows "chain 0 (returned_ranges s) (next_window_index s)"
proof -
  let ?P = "\<lambda>s :: 'a poa_state. chain 0 (returned_ranges s) (next_window_index s)"
  have "?P (start_state (resize status_before (length ws) False) batches)"
    by (simp add: start_state_def)
  from run_batches_invariant [OF assms [unfolded accelerator_phase_def], of ?P, OF this]
    step_chain show ?thesis by blast
qed

lemma distinct_of_mset_subset:
  "mset xs \<subseteq># mset ys \<Longrightarrow> distinct ys \<Longrightarrow> distinct xs \<and> set xs \<subseteq> set ys"
proof -
  assume a: "mset xs \<subseteq># mset ys" "distinct ys"
  have c: "count (mset xs) x \<le> 1" for x
  proof -
    have "count (mset ys) x \<le> 1" using a(2) by (simp add: distinct_count_atmost_1)
    with mset_subset_eq_count [OF a(1), of x] show ?thesis by simp
  qed
  have "distinct xs"
    unfolding distinct_count_atmost_1
  proof
    fix x
    show "count (mset xs) x = (if x \<in> set xs then 1 else 0)"
      using c [of x] by (cases "x \<in> set xs") (auto simp: count_mset_0_iff dest: le_antisym)
  qed
  moreover have "set xs \<subseteq> set ys" using a(1) by (metis set_mset_mono set_mset_mset)
  ultimately show ?thesis by simp
qed

lemma step_cover_inv:
  assumes w: "writes_inv ws s" and c: "cover_inv ws s" and r: "r < length (batch_processors s)"
    and step: "process_batch_step ws r s = Inr s'"
  shows "cover_inv ws s'"
proof -
  obtain b place where p: "batch_processors s ! r = (b, place)"
    by (cases "batch_processors s ! r")
  let ?n = "next_window_index s"
  let ?T = "\<lambda>q :: 'a batch \<times> pc. (\<forall>e. snd q \<noteq> Threw e) \<and> (\<forall>w. fits (fst q) [] w)
          \<and> (\<forall>h. length (gpu_kernel (fst q) h) = length h)
          \<and> (\<forall>a e. snd q = Executing a e \<longrightarrow> length (held (fst q)) = e - a)"
  from w have L: "length (window_consensus_status s) = length ws"
    and N: "?n \<le> u32 (length ws)"
    and E: "\<forall>q \<in> set (batch_processors s).
              place_ok (length ws) ?n (accelerator_writes s) (snd q)"
    by (auto simp: writes_inv_def)
  from c have T: "\<forall>q \<in> set (batch_processors s). ?T q"
    and F: "(\<exists>q \<in> set (batch_processors s). snd q = Finished) \<Longrightarrow> ?n = u32 (length ws)"
    by (auto simp: cover_inv_def)
  have mem: "q \<in> set ((batch_processors s)[r := x]) \<Longrightarrow> q = x \<or> q \<in> set (batch_processors s)" for q x
    using set_update_subset_insert [of "batch_processors s" r x] by auto
  have bmem: "(b, place) \<in> set (batch_processors s)" using p r by (metis nth_mem)
  with T have Tb: "?T (b, place)" by blast
  from E bmem have pk: "place_ok (length ws) ?n (accelerator_writes s) place" by auto
  have n32: "?n < 2 ^ 32" using N u32_lt [of "length ws"] by simp
  have nl: "?n \<le> length ws" using N u32_le [of "length ws"] by simp
  have same: "cover_inv ws s'"
    if s': "next_window_index s' = ?n"
           "batch_processors s' = (batch_processors s)[r := (b, place')]"
      and pl: "\<forall>e. place' \<noteq> Threw e" "place' \<noteq> Finished" "\<forall>a e. place' \<noteq> Executing a e"
    for place'
  proof -
    have "?T (b, place')" using Tb pl by simp
    with T have T': "\<forall>q \<in> set ((batch_processors s)[r := (b, place')]). ?T q"
      by (intro set_update_all)
    have F': "?n = u32 (length ws)"
      if "\<exists>q \<in> set ((batch_processors s)[r := (b, place')]). snd q = Finished"
    proof -
      from that obtain q where q: "q \<in> set ((batch_processors s)[r := (b, place')])"
        "snd q = Finished" by blast
      from mem [OF q(1)] q(2) pl(2) have "q \<in> set (batch_processors s)" by auto
      with q(2) F show ?thesis by blast
    qed
    show ?thesis
      unfolding cover_inv_def s' using T' F' by blast
  qed
  show ?thesis
  proof (cases place)
    case Filling
    show ?thesis
    proof (cases "fill_next_batch_windows ws (?n, last_logger_count s) b")
      case (Inl e)
      with fill_windows_Inl [OF Inl] step p Filling show ?thesis
        by (simp add: process_batch_step_def)
    next
      case (Inr res)
      obtain b' n' l' rng where res: "res = (b', (n', l'), rng)" by (cases res) auto
      note f = fill_windows_Inr [OF Inr [unfolded res]]
      define place' where "place' = (if hasWindows b' then Executing ?n n' else Finished)"
      have s': "next_window_index s' = n'"
        "batch_processors s' = (batch_processors s)[r := (b', place')]"
        using step p Filling Inr res f by (auto simp: process_batch_step_def place'_def)
      have nn: "?n \<le> n'" "n' \<le> u32 (length ws)" using f N by auto
      have hl: "length (held b') = n' - ?n"
        using f nn u32_le [of "length ws"] by simp
      have new: "?T (b', place')"
        using Tb f hl by (simp add: place'_def)
      with T have T': "\<forall>q \<in> set ((batch_processors s)[r := (b', place')]). ?T q"
        by (intro set_update_all)
      have fin: "n' = u32 (length ws)" if "place' = Finished"
      proof (rule ccontr)
        assume "n' \<noteq> u32 (length ws)"
        with nn have lt: "n' < u32 (length ws)" by simp
        from that have "held b' = []" by (auto simp: place'_def hasWindows_def split: if_splits)
        with f lt Tb show False by simp
      qed
      have F': "n' = u32 (length ws)"
        if "\<exists>q \<in> set ((batch_processors s)[r := (b', place')]). snd q = Finished"
      proof -
        from that obtain q where q: "q \<in> set ((batch_processors s)[r := (b', place')])"
          "snd q = Finished" by blast
        from mem [OF q(1)] show ?thesis
        proof
          assume "q = (b', place')"
          with q(2) fin show ?thesis by simp
        next
          assume "q \<in> set (batch_processors s)"
          with q(2) F have "?n = u32 (length ws)" by blast
          with nn show ?thesis by simp
        qed
      qed
      show ?thesis
        unfolding cover_inv_def s' using T' F' by blast
    qed
  next
    case (Executing a e)
    from pk Executing have ae: "a < e" "e \<le> ?n" by auto
    have e32: "e < 2 ^ 32" using ae n32 by simp
    have sub: "sub32 e a = e - a" using ae e32 by (simp add: sub32_le)
    have len: "length (generateConsensus b) = e - a"
      using Tb Executing by (simp add: generateConsensus_def)
    have s': "next_window_index s' = ?n"
      "batch_processors s' = (batch_processors s)[r := (b, Copying a (generateConsensus b) 0)]"
      using step p Executing len sub by (auto simp: process_batch_step_def Let_def)
    show ?thesis by (rule same [OF s']) simp_all
  next
    case (Copying f res i)
    from pk Copying have il: "i \<le> length res" "f + length res \<le> ?n" by auto
    show ?thesis
    proof (cases "i < length res")
      case False
      then have s': "next_window_index s' = ?n"
        "batch_processors s' = (batch_processors s)[r := (b, Filling)]"
        using step p Copying by (auto simp: process_batch_step_def)
      show ?thesis by (rule same [OF s']) simp_all
    next
      case True
      have fi: "f + i < ?n" using True il by simp
      have u: "u32 (f + i) = f + i" using fi n32 by (simp add: u32_id)
      have jl: "f + i < length (window_consensus_status s)" using fi nl L by simp
      have s': "next_window_index s' = ?n"
        "batch_processors s' = (batch_processors s)
            [r := (b, Storing f res i (load_word (window_consensus_status s) (f + i)))]"
        using step p Copying True u jl by (auto simp: process_batch_step_def Let_def)
      show ?thesis by (rule same [OF s']) simp_all
    qed
  next
    case (Storing f res i w)
    have s': "next_window_index s' = ?n"
      "batch_processors s' = (batch_processors s)[r := (b, Copying f res (i + 1))]"
      using step p Storing by (auto simp: process_batch_step_def Let_def)
    show ?thesis by (rule same [OF s']) simp_all
  next
    case Finished
    with step p c show ?thesis by (simp add: process_batch_step_def)
  next
    case (Threw e)
    with step p c show ?thesis by (simp add: process_batch_step_def)
  qed
qed

lemma step_length:
  "process_batch_step ws r s = Inr s' \<Longrightarrow> length (batch_processors s') = length (batch_processors s)"
  by (auto simp: process_batch_step_def Let_def
        split: prod.splits pc.splits sum.splits if_splits)

text \<open>
  A run over a collection of fewer than twenty windows (logger step 0) with at least one
  batch meets the division of line 229 in its first step, under every schedule.
\<close>

lemma small_collection_always_dies:
  assumes "logger_step ws = 0" and "batches \<noteq> []"
  shows "accelerator_phase ws batches sched status_before = Inl DivisionByZero"
proof -
  define s where "s = start_state (resize status_before (length ws) False) batches"
  have procs: "batch_processors s = map (\<lambda>b. (b, Filling)) batches"
    by (simp add: s_def start_state_def)
  have "active (batch_processors s) = [0..<length batches]"
    unfolding procs active_def by (simp add: filter_id_conv)
  with assms(2) obtain a as where act: "active (batch_processors s) = a # as"
    by (cases "[0..<length batches]") auto
  let ?r = "pick sched (a # as)"
  from pick_active [OF act, of sched] have r: "?r < length batches"
    by (simp add: procs)
  then have "batch_processors s ! ?r = (batches ! ?r, Filling)"
    by (simp add: procs)
  then have "process_batch_step ws ?r s = Inl DivisionByZero"
    using fill_windows_zero [OF assms(1)] by (simp add: process_batch_step_def)
  with act show ?thesis
    unfolding accelerator_phase_def s_def [symmetric]
    by (subst run_batches.simps) simp
qed

text \<open>
  The ranges of a run that does not meet the division of line 229. When the logger step is
  positive the accelerator phase returns; when moreover there is a batch, every empty batch
  accepts any window, every execution reports one flag per window held and the collection
  has fewer than \<open>2 ^ 32\<close> windows, the ranges handed out, in the order of the calls,
  are consecutive pieces of \<open>[0, N)\<close> that cover it.
\<close>

lemma ranges_cover_all_windows:
  assumes "batches \<noteq> []"
    and "\<forall>b \<in> set batches. (\<forall>w. fits b [] w) \<and> (\<forall>h. length (gpu_kernel b h) = length h)"
    and "length ws < 2 ^ 32" and "logger_step ws \<noteq> 0"
  shows "\<exists>s. accelerator_phase ws batches sched [] = Inr s
           \<and> chain 0 (returned_ranges s) (length ws)
           \<and> concat (map (\<lambda>(x, y). [x..<y]) (returned_ranges s)) = [0..<length ws]"
proof -
  from run_batches_Inr [OF assms(4)] obtain s where
    s: "accelerator_phase ws batches sched [] = Inr s"
    unfolding accelerator_phase_def by blast
  let ?P = "\<lambda>s :: 'a poa_state. writes_inv ws s \<and> cover_inv ws s
              \<and> length (batch_processors s) = length batches"
  have "cover_inv ws (start_state (resize [] (length ws) False) batches)"
    using assms(2) by (auto simp: cover_inv_def start_state_def)
  with start_writes_inv [of ws batches]
  have "?P (start_state (resize [] (length ws) False) batches)"
    by (simp add: start_state_def)
  from run_batches_invariant [OF s [unfolded accelerator_phase_def], of ?P, OF this]
  have "?P s \<and> active (batch_processors s) = []"
    using step_writes_inv step_cover_inv step_length by metis
  then have c: "cover_inv ws s" and len: "length (batch_processors s) = length batches"
    and act: "active (batch_processors s) = []" by simp_all
  have fin: "snd q = Finished" if "q \<in> set (batch_processors s)" for q
  proof -
    from that obtain r where r: "r < length (batch_processors s)" "batch_processors s ! r = q"
      by (auto simp: in_set_conv_nth)
    from act r have "\<not> running (snd q)"
      by (auto simp: active_def filter_empty_conv)
    moreover from c that have "\<forall>e. snd q \<noteq> Threw e" unfolding cover_inv_def by blast
    ultimately show ?thesis by (cases "snd q") auto
  qed
  from len assms(1) obtain q where q: "q \<in> set (batch_processors s)"
    by (cases "batch_processors s") auto
  from c have "(\<exists>q \<in> set (batch_processors s). snd q = Finished)
      \<longrightarrow> next_window_index s = u32 (length ws)"
    unfolding cover_inv_def by blast
  with q fin [OF q] have "next_window_index s = u32 (length ws)" by blast
  with assms(3) have n: "next_window_index s = length ws" by (simp add: u32_id)
  from accelerator_phase_chain [OF s] n have ch: "chain 0 (returned_ranges s) (length ws)" by simp
  from s ch chain_concat [OF ch] show ?thesis by blast
qed

subsection \<open>The fallback and the write history\<close>

lemma fallback_loop_result:
  assumes "length st = length ws" and "i \<le> length ws"
  shows "fallback_loop pl ws i st tasks =
           (if \<exists>k\<in>set [i..<length ws]. no_context pl st k then Inl Exit1
            else Inr (take i st @ map (\<lambda>k. if st ! k then True else recomputed pl ws k) [i..<length ws],
                      tasks @ filter (\<lambda>k. \<not> st ! k) [i..<length ws]))"
  using assms
proof (induction pl ws i st tasks rule: fallback_loop.induct)
  case (1 pl ws i st tasks)
  show ?case
  proof (cases "i < length ws")
    case False
    with 1(4) have "i = length ws" by simp
    with 1(3) show ?thesis by (subst fallback_loop.simps) simp
  next
    case True
    then have ist: "i < length st" using 1(3) by simp
    have u: "[i..<length ws] = i # [i + 1..<length ws]"
      using True by (simp add: upt_conv_Cons)
    show ?thesis
    proof (cases "st ! i")
      case t: True
      have "fallback_loop pl ws i st tasks = fallback_loop pl ws (i + 1) st tasks"
        using True ist t by (subst fallback_loop.simps) simp
      also note "1.IH"(2) [OF True ist _ 1(3)]
      finally show ?thesis
        using t True ist unfolding u
        by (simp add: no_context_def take_Suc_conv_app_nth)
    next
      case f: False
      show ?thesis
      proof (cases "thread_to_id pl (worker_of_task pl i)")
        case None
        then show ?thesis
          using True ist f unfolding u
          by (subst fallback_loop.simps) (simp add: failed_window_task_def no_context_def)
      next
        case (Some engine)
        define v where "v = generate_consensus pl engine (ws ! i)"
        have ft: "failed_window_task pl ws i st = Inr (st[i := v])"
          using Some ist by (simp add: failed_window_task_def v_def)
        have rc: "recomputed pl ws i = v"
          using Some by (simp add: recomputed_def v_def)
        have "fallback_loop pl ws i st tasks = fallback_loop pl ws (i + 1) (st[i := v]) (tasks @ [i])"
          using True ist f ft by (subst fallback_loop.simps) simp
        also have "\<dots> = (if \<exists>k\<in>set [i + 1..<length ws]. no_context pl (st[i := v]) k then Inl Exit1
            else Inr (take (i + 1) (st[i := v])
                      @ map (\<lambda>k. if st[i := v] ! k then True else recomputed pl ws k) [i + 1..<length ws],
                      (tasks @ [i]) @ filter (\<lambda>k. \<not> st[i := v] ! k) [i + 1..<length ws]))"
          using "1.IH"(1) [OF True ist _ ft] f 1(3) True by simp
        also have "(\<exists>k\<in>set [i + 1..<length ws]. no_context pl (st[i := v]) k)
                   = (\<exists>k\<in>set [i..<length ws]. no_context pl st k)"
          using Some unfolding u by (auto simp: no_context_def)
        also have "map (\<lambda>k. if st[i := v] ! k then True else recomputed pl ws k) [i + 1..<length ws]
                   = map (\<lambda>k. if st ! k then True else recomputed pl ws k) [i + 1..<length ws]"
          by (rule map_cong) auto
        also have "filter (\<lambda>k. \<not> st[i := v] ! k) [i + 1..<length ws]
                   = filter (\<lambda>k. \<not> st ! k) [i + 1..<length ws]"
          by (rule filter_cong) auto
        also have "take (i + 1) (st[i := v]) = take i st @ [v]"
          using ist by (simp add: take_Suc_conv_app_nth)
        finally show ?thesis
          using f rc unfolding u by simp
      qed
    qed
  qed
qed

lemma status_writes_cover:
  assumes "status_writes pl batches sched ws [] = Inr (accelerated, tasks)"
  shows "distinct accelerated \<and> distinct tasks \<and> set accelerated \<union> set tasks = {0..<length ws}"
proof -
  from assms obtain s status where
    s: "accelerator_phase ws batches sched [] = Inr s"
       "fallback pl ws (window_consensus_status s) = Inr (status, tasks)"
       "accelerated = map fst (accelerator_writes s)"
    by (auto simp: status_writes_def split: sum.splits)
  from accelerator_phase_inv [OF s(1)] have inv: "writes_inv ws s" by simp
  then have L: "length (window_consensus_status s) = length ws"
    and N: "next_window_index s \<le> u32 (length ws)"
    and M: "mset (map fst (accelerator_writes s)) + pending (batch_processors s)
              \<subseteq># mset [0..<next_window_index s]"
    and Z: "\<And>i. i < length ws \<Longrightarrow> window_consensus_status s ! i
              \<Longrightarrow> (i, True) \<in> set (accelerator_writes s)"
    by (auto simp: writes_inv_def)
  have "mset (map fst (accelerator_writes s)) \<subseteq># mset [0..<next_window_index s]"
    using mset_subset_eq_add_left [of "mset (map fst (accelerator_writes s))"
            "pending (batch_processors s)"] M
    by (rule subset_mset.order_trans)
  from distinct_of_mset_subset [OF this] have d: "distinct (map fst (accelerator_writes s))"
    "set (map fst (accelerator_writes s)) \<subseteq> {0..<next_window_index s}" by simp_all
  have sub: "set (map fst (accelerator_writes s)) \<subseteq> {0..<length ws}"
    using d(2) N u32_le [of "length ws"] by auto
  from s(2) fallback_loop_result [OF L, of 0 pl "[]"]
  have t: "tasks = filter (\<lambda>k. \<not> window_consensus_status s ! k) [0..<length ws]"
    by (auto simp: fallback_def split: if_splits)
  have dt: "distinct tasks" unfolding t by simp
  have st: "set tasks \<subseteq> {0..<length ws}" unfolding t by auto
  have c: "k \<in> set tasks" if "k < length ws" "k \<notin> set (map fst (accelerator_writes s))" for k
  proof -
    have "\<not> window_consensus_status s ! k"
    proof
      assume "window_consensus_status s ! k"
      from Z [OF that(1) this] have "fst (k, True) \<in> fst ` set (accelerator_writes s)"
        by (rule imageI)
      with that(2) show False by simp
    qed
    with that(1) show ?thesis unfolding t by simp
  qed
  have "set (map fst (accelerator_writes s)) \<union> set tasks = {0..<length ws}"
  proof (intro equalityI subsetI)
    fix k assume "k \<in> set (map fst (accelerator_writes s)) \<union> set tasks"
    with sub st show "k \<in> {0..<length ws}" by blast
  next
    fix k assume "k \<in> {0..<length ws}"
    then have "k < length ws" by simp
    with c [of k] show "k \<in> set (map fst (accelerator_writes s)) \<union> set tasks" by blast
  qed
  with d(1) dt s(3) show ?thesis by simp
qed

subsection \<open>The flags the runners assign\<close>






subsection \<open>The runners of find_overlap_breaking_points\<close>

lemma waiting_update:
  "r < length procs \<Longrightarrow>
   waiting (procs[r := x]) + mset (waiting_of (procs ! r)) = waiting procs + mset (waiting_of x)"
  unfolding waiting_def
  by (induction procs arbitrary: r) (auto split: nat.splits simp: nth_Cons')

lemma run_aligners_invariant:
  assumes "P s"
    and "\<And>r s. P s \<Longrightarrow> r < length (batch_aligners s) \<Longrightarrow>
           aligner_running (snd (batch_aligners s ! r)) \<Longrightarrow> P (process_batch_overlaps_step ovs r s)"
  shows "P (run_aligners ovs sched s) \<and> active_aligners (batch_aligners (run_aligners ovs sched s)) = []"
  using assms
proof (induction ovs sched s rule: run_aligners.induct)
  case (1 ovs sched s)
  show ?case
  proof (cases "active_aligners (batch_aligners s)")
    case Nil
    with 1(2) show ?thesis by (simp add: run_aligners.simps [of ovs sched s])
  next
    case (Cons a as)
    from pick_active_aligner [OF Cons, of sched] 1(3) [OF 1(2)]
    have "P (process_batch_overlaps_step ovs (pick sched (a # as)) s)" by simp
    from "1.IH" [OF Cons this 1(3)] Cons show ?thesis
      by (simp add: run_aligners.simps [of ovs sched s])
  qed
qed

lemma overlaps_step_inv:
  assumes inv: "align_inv ovs s" and r: "r < length (batch_aligners s)"
  shows "align_inv ovs (process_batch_overlaps_step ovs r s)"
proof -
  obtain b place where p: "batch_aligners s ! r = (b, place)"
    by (cases "batch_aligners s ! r")
  let ?n = "next_overlap_index s"
  from inv have N: "?n \<le> u32 (length ovs)"
    and M: "mset (concat (aligned s)) + waiting (batch_aligners s) = mset (take ?n ovs)"
    and T: "\<And>q. q \<in> set (batch_aligners s) \<Longrightarrow> (\<forall>e. snd q \<noteq> AThrew e) \<and> (\<forall>w. fits (fst q) [] w)"
    and F: "(\<exists>q \<in> set (batch_aligners s). snd q = AFinished) \<Longrightarrow> ?n = u32 (length ovs)"
    and A: "[] \<notin> set (aligned s)"
    and H: "\<And>q. q \<in> set (batch_aligners s) \<Longrightarrow> snd q = AAligning \<Longrightarrow> held (fst q) \<noteq> []"
    by (auto simp: align_inv_def)
  have mem: "q \<in> set ((batch_aligners s)[r := x]) \<Longrightarrow> q = x \<or> q \<in> set (batch_aligners s)" for q x
    using set_update_subset_insert [of "batch_aligners s" r x] by auto
  have bmem: "(b, place) \<in> set (batch_aligners s)" using p r by (metis nth_mem)
  note wu = waiting_update [OF r, unfolded p]
  show ?thesis
  proof (cases place)
    case AFilling
    from fill_overlaps_Inr [of ovs ?n b]
    obtain b' n' line where f: "fill_next_batch_overlaps ovs ?n b = Inr (b', n', line)"
      "?n \<le> n'" "n' \<le> u32 (length ovs) \<or> n' = ?n"
      "held b' = take (n' - ?n) (drop ?n ovs)" "fits b' = fits b"
      "n' < u32 (length ovs) \<longrightarrow> \<not> fits b (held b') (ovs ! n')"
      by blast
    define place' where "place' = (if hasOverlaps b' then AAligning else AFinished)"
    define s' where "s' = process_batch_overlaps_step ovs r s"
    have s': "next_overlap_index s' = n'" "batch_aligners s' = (batch_aligners s)[r := (b', place')]"
      "aligned s' = aligned s"
      using p AFilling f(1) by (simp_all add: s'_def process_batch_overlaps_step_def place'_def)
    have nn: "n' \<le> u32 (length ovs)" using f N by auto
    have wo: "mset (waiting_of (b', place')) = mset (held b')"
      by (simp add: waiting_of_def place'_def hasOverlaps_def)
    have "waiting ((batch_aligners s)[r := (b', place')]) = waiting (batch_aligners s) + mset (held b')"
      using wu [of "(b', place')"] AFilling wo by (simp add: waiting_of_def)
    moreover have "take n' ovs = take ?n ovs @ take (n' - ?n) (drop ?n ovs)"
      using f(2) take_add [of ?n "n' - ?n" ovs] by simp
    ultimately have M': "mset (concat (aligned s)) + waiting ((batch_aligners s)[r := (b', place')])
         = mset (take n' ovs)"
      using M f(4) by (simp add: ac_simps)
    have cap: "fits b [] w" for w using T [OF bmem] by simp
    have T': "(\<forall>e. snd q \<noteq> AThrew e) \<and> (\<forall>w. fits (fst q) [] w)"
      if "q \<in> set ((batch_aligners s)[r := (b', place')])" for q
    proof -
      from mem [OF that] show ?thesis
      proof
        assume "q = (b', place')"
        then show ?thesis using cap f(5) by (simp add: place'_def)
      next
        assume "q \<in> set (batch_aligners s)"
        then show ?thesis by (rule T)
      qed
    qed
    have fin: "n' = u32 (length ovs)" if "place' = AFinished"
    proof (rule ccontr)
      assume "n' \<noteq> u32 (length ovs)"
      with nn have lt: "n' < u32 (length ovs)" by simp
      from that have "held b' = []" by (auto simp: place'_def hasOverlaps_def split: if_splits)
      with f(6) lt cap show False by simp
    qed
    have F': "n' = u32 (length ovs)"
      if "\<exists>q \<in> set ((batch_aligners s)[r := (b', place')]). snd q = AFinished"
    proof -
      from that obtain q where q: "q \<in> set ((batch_aligners s)[r := (b', place')])" "snd q = AFinished"
        by blast
      from mem [OF q(1)] show ?thesis
      proof
        assume "q = (b', place')"
        with q(2) fin show ?thesis by simp
      next
        assume "q \<in> set (batch_aligners s)"
        with q(2) F have "?n = u32 (length ovs)" by blast
        with f(2) nn show ?thesis by simp
      qed
    qed
    have H': "held (fst q) \<noteq> []"
      if "q \<in> set ((batch_aligners s)[r := (b', place')])" "snd q = AAligning" for q
    proof -
      from mem [OF that(1)] show ?thesis
      proof
        assume "q = (b', place')"
        then show ?thesis using that(2) by (auto simp: place'_def hasOverlaps_def split: if_splits)
      next
        assume "q \<in> set (batch_aligners s)"
        then show ?thesis using that(2) by (rule H)
      qed
    qed
    show ?thesis
      unfolding align_inv_def s'_def [symmetric] s'
      using nn M' T' F' A H' by blast
  next
    case AAligning
    define s' where "s' = process_batch_overlaps_step ovs r s"
    have s': "next_overlap_index s' = ?n" "batch_aligners s' = (batch_aligners s)[r := (b, AFilling)]"
      "aligned s' = aligned s @ [held b]"
      using p AAligning by (simp_all add: s'_def process_batch_overlaps_step_def)
    have "waiting ((batch_aligners s)[r := (b, AFilling)]) + mset (held b) = waiting (batch_aligners s)"
      using wu [of "(b, AFilling)"] AAligning by (simp add: waiting_of_def)
    then have "mset (concat (aligned s @ [held b])) + waiting ((batch_aligners s)[r := (b, AFilling)])
         = mset (concat (aligned s)) + waiting (batch_aligners s)"
      by (simp add: ac_simps flip: \<open>waiting ((batch_aligners s)[r := (b, AFilling)]) + mset (held b) = waiting (batch_aligners s)\<close>)
    with M have M': "mset (concat (aligned s @ [held b])) + waiting ((batch_aligners s)[r := (b, AFilling)])
         = mset (take ?n ovs)"
      by simp
    have T': "(\<forall>e. snd q \<noteq> AThrew e) \<and> (\<forall>w. fits (fst q) [] w)"
      if "q \<in> set ((batch_aligners s)[r := (b, AFilling)])" for q
    proof -
      from mem [OF that] show ?thesis
      proof
        assume "q = (b, AFilling)"
        then show ?thesis using T [OF bmem] by simp
      next
        assume "q \<in> set (batch_aligners s)"
        then show ?thesis by (rule T)
      qed
    qed
    have F': "?n = u32 (length ovs)"
      if "\<exists>q \<in> set ((batch_aligners s)[r := (b, AFilling)]). snd q = AFinished"
    proof -
      from that obtain q where q: "q \<in> set ((batch_aligners s)[r := (b, AFilling)])" "snd q = AFinished"
        by blast
      from mem [OF q(1)] q(2) have "q \<in> set (batch_aligners s)" by auto
      with q(2) F show ?thesis by blast
    qed
    have hb: "held b \<noteq> []" using H [OF bmem] AAligning by simp
    have H': "held (fst q) \<noteq> []"
      if "q \<in> set ((batch_aligners s)[r := (b, AFilling)])" "snd q = AAligning" for q
    proof -
      from mem [OF that(1)] that(2) have "q \<in> set (batch_aligners s)" by auto
      then show ?thesis using that(2) by (rule H)
    qed
    show ?thesis
      unfolding align_inv_def s'_def [symmetric] s'
      using N M' T' F' A hb H' by auto
  next
    case AFinished
    with p inv show ?thesis by (simp add: process_batch_overlaps_step_def)
  next
    case (AThrew e)
    with p inv show ?thesis by (simp add: process_batch_overlaps_step_def)
  qed
qed

lemma start_align_inv:
  assumes "\<forall>b \<in> set aligners. \<forall>w. fits b [] w"
  shows "align_inv ovs (start_aligners aligners)"
proof -
  have "waiting (map (\<lambda>b. (b, AFilling)) bs) = {#}" for bs :: "'a batch list"
    by (induction bs) (simp_all add: waiting_def waiting_of_def)
  with assms show ?thesis
    by (auto simp: align_inv_def start_aligners_def)
qed

lemma overlaps_step_length:
  "length (batch_aligners (process_batch_overlaps_step ovs r s)) = length (batch_aligners s)"
  by (auto simp: process_batch_overlaps_step_def Let_def
        split: prod.splits aligner_place.splits sum.splits)

lemma run_aligners_covers:
  assumes "aligners \<noteq> []" and "\<forall>b \<in> set aligners. \<forall>w. fits b [] w" and "length ovs < 2 ^ 32"
  shows "mset (concat (aligned (run_aligners ovs sched (start_aligners aligners)))) = mset ovs
         \<and> [] \<notin> set (aligned (run_aligners ovs sched (start_aligners aligners)))"
proof -
  define t where "t = run_aligners ovs sched (start_aligners aligners)"
  let ?P = "\<lambda>s :: 'a align_state. align_inv ovs s \<and> length (batch_aligners s) = length aligners"
  have "?P (start_aligners aligners)"
    using start_align_inv [OF assms(2)] by (simp add: start_aligners_def)
  from run_aligners_invariant [of ?P, OF this]
  have "?P t \<and> active_aligners (batch_aligners t) = []"
    unfolding t_def using overlaps_step_inv overlaps_step_length by metis
  then have inv: "align_inv ovs t" and len: "length (batch_aligners t) = length aligners"
    and act: "active_aligners (batch_aligners t) = []" by simp_all
  have fin: "snd q = AFinished" if "q \<in> set (batch_aligners t)" for q
  proof -
    from that obtain r where r: "r < length (batch_aligners t)" "batch_aligners t ! r = q"
      by (auto simp: in_set_conv_nth)
    from act r have "\<not> aligner_running (snd q)"
      by (auto simp: active_aligners_def filter_empty_conv)
    moreover from inv that have "\<forall>e. snd q \<noteq> AThrew e" by (auto simp: align_inv_def)
    ultimately show ?thesis by (cases "snd q") auto
  qed
  from len assms(1) obtain q where q: "q \<in> set (batch_aligners t)"
    by (cases "batch_aligners t") auto
  from inv have "(\<exists>q \<in> set (batch_aligners t). snd q = AFinished)
      \<longrightarrow> next_overlap_index t = u32 (length ovs)"
    unfolding align_inv_def by blast
  with q fin [OF q] have n: "next_overlap_index t = u32 (length ovs)" by blast
  have "concat (map waiting_of (batch_aligners t)) = []"
    using fin by (auto simp: waiting_of_def)
  then have w: "waiting (batch_aligners t) = {#}" by (simp add: waiting_def)
  from inv have "mset (concat (aligned t)) + waiting (batch_aligners t)
      = mset (take (next_overlap_index t) ovs)" and "[] \<notin> set (aligned t)"
    by (simp_all add: align_inv_def)
  with w n assms(3) show ?thesis by (simp add: u32_id t_def)
qed

subsection \<open>The example runs\<close>

lemma example_run:
  "\<exists>s. accelerator_phase twenty_windows example_batches [1, 0, 1] [] = Inr s
    \<and> returned_ranges s = [(0, 8), (8, 16), (16, 20), (20, 20), (20, 20)]
    \<and> next_window_index s = 20
    \<and> map fst (accelerator_writes s)
        = [8, 9, 10, 11, 12, 13, 14, 15, 16, 17, 18, 19, 0, 1, 2, 3, 4, 5, 6, 7]
    \<and> window_consensus_status s
        = [False, False, False, False, False, False, False, False, True, True,
           True, True, True, True, True, True, True, True, True, True]"
  by (simp add: run_eval twenty_windows_def example_batches_def)

lemma example_status_writes:
  "status_writes example_pool example_batches [1, 0, 1] twenty_windows []
        = Inr ([8, 9, 10, 11, 12, 13, 14, 15, 16, 17, 18, 19, 0, 1, 2, 3, 4, 5, 6, 7],
               [0, 1, 2, 3, 4, 5, 6, 7])"
proof -
  from example_run obtain s where
    s: "accelerator_phase twenty_windows example_batches [1, 0, 1] [] = Inr s"
       "map fst (accelerator_writes s)
          = [8, 9, 10, 11, 12, 13, 14, 15, 16, 17, 18, 19, 0, 1, 2, 3, 4, 5, 6, 7]"
       "window_consensus_status s
        = [False, False, False, False, False, False, False, False, True, True,
           True, True, True, True, True, True, True, True, True, True]"
    by (elim exE conjE)
  show ?thesis
    unfolding status_writes_def s(1) sum.case s(2) s(3)
    by (simp add: twenty_windows_def fallback_def fallback_loop.simps
          failed_window_task_def example_pool_def)
qed



lemma short_run:
  "\<exists>s. accelerator_phase twenty_windows [short_results_batch] [] [] = Inr s
     \<and> map snd (batch_processors s) = [Threw RuntimeError]
     \<and> window_consensus_status s = [False, False, False, False, False, False, False, False, False, False,
      False, False, False, False, False, False, False, False, False, False]"
  by (simp add: run_eval short_results_batch_def twenty_windows_def)

lemma short_fallback:
  "fallback example_pool twenty_windows [False, False, False, False, False, False, False, False, False, False,
      False, False, False, False, False, False, False, False, False, False]
   = Inr ([True, True, True, True, True, True, True, True, True, True,
                 True, True, True, True, True, True, True, True, True, True],
          [0, 1, 2, 3, 4, 5, 6, 7, 8, 9, 10, 11, 12, 13, 14, 15, 16, 17, 18, 19])"
  by (simp add: twenty_windows_def fallback_def fallback_loop.simps
          failed_window_task_def example_pool_def)

section \<open>The claims\<close>

text \<open>
  Claim C1: over a whole run, the ranges handed out by the batch filler cover \<open>[0, N)\<close>,
  no index missing and none in two ranges. The code at a collection of five windows, with
  one batch of capacity 256: the first call of \<^verbatim>\<open>fill_next_batch\<close> divides by the logger
  step \<open>5 div 20 = 0\<close>, and the run ends there, before any range is handed out.
\<close>

theorem small_collection_run_dies:
  "accelerator_phase five_windows [fixed_batch 256 (\<lambda>w. True)] [] [] = Inl DivisionByZero
   \<and> polish example_polisher example_pool [fixed_batch 256 (\<lambda>w. True)] [] five_windows [] False []
       = Inl DivisionByZero"
  by (simp add: polish_def run_eval five_windows_def)




text \<open>
  Claim C3: a results vector whose size differs from the size of the assigned range aborts
  the run before any output record is emitted. The code at twenty windows and one batch
  that returns an empty results vector: the runner ends with the \<^verbatim>\<open>std::runtime_error\<close> of
  line 254, which stays in its future (the main thread calls \<^verbatim>\<open>wait\<close>, never \<^verbatim>\<open>get\<close>),
  and \<^verbatim>\<open>polish\<close> goes on: the fallback recomputes the windows and a record is emitted.
\<close>

theorem size_mismatch_does_not_abort:
  "(case accelerator_phase twenty_windows [short_results_batch] [] [] of
      Inl e \<Rightarrow> [] | Inr s \<Rightarrow> map snd (batch_processors s)) = [Threw RuntimeError]
   \<and> polish example_polisher example_pool [short_results_batch] [] twenty_windows [] False []
       = Inr [createSequence ''contig0 LN:i:20 RC:i:7 XC:f:1000000e-6'' ''AAAAAAAAAAAAAAAAAAAA'']"
proof -
  let ?F = "[False, False, False, False, False, False, False, False, False, False,
            False, False, False, False, False, False, False, False, False, False]"
  let ?T = "[True, True, True, True, True, True, True, True, True, True,
             True, True, True, True, True, True, True, True, True, True]"
  from short_run obtain s where
    s: "accelerator_phase twenty_windows [short_results_batch] [] [] = Inr s"
       "map snd (batch_processors s) = [Threw RuntimeError]"
       "window_consensus_status s = ?F"
    by (elim exE conjE)
  have l: "length twenty_windows \<le> length ?T" "length twenty_windows < 2 ^ 32"
    by (simp_all add: twenty_windows_def)
  have a: "assemble example_polisher False twenty_windows ?T []
           = Inr [createSequence ''contig0 LN:i:20 RC:i:7 XC:f:1000000e-6'' ''AAAAAAAAAAAAAAAAAAAA'']"
    unfolding assemble_runs [OF l]
    by (simp add: example_window_def twenty_windows_def spec_emit_def spec_record_def spec_text_def
          spec_ratio_def spec_succeeded_def tags_def example_polisher_def to_string.simps
          digit_char_def)
  show ?thesis
    unfolding polish_def s(1) sum.case s(2) s(3) short_fallback by (simp add: a)
qed

text \<open>
  Claim C4: \<^verbatim>\<open>fill_next_batch\<close> resets the batch, inserts the next items until the batch
  refuses one or the collection is exhausted, advances the index by the number inserted and
  returns the range, an empty one when the collection is exhausted. The code of
  \<^verbatim>\<open>polish\<close> at a collection of five windows, index 0 and index 5 (exhausted): after the
  loop it divides by the logger step \<open>5 div 20 = 0\<close> and returns nothing.
\<close>

theorem fill_next_batch_divides_by_zero:
  "fill_next_batch_windows five_windows (0, 0) (fixed_batch 256 (\<lambda>w. True)) = Inl DivisionByZero
   \<and> fill_next_batch_windows five_windows (5, 0) (fixed_batch 256 (\<lambda>w. True)) = Inl DivisionByZero"
  by (simp add: run_eval five_windows_def)



text \<open>
  Claim C6, as stated (every work item is processed exactly once), at one overlap and one
  batch of capacity 1000: the overlap is aligned in the batch and is then handed to the host
  implementation, which line 153 runs on the whole collection.
\<close>

theorem overlap_processed_twice_counterexample:
  "find_overlap_breaking_points [7::nat] [fixed_batch 1000 (\<lambda>ov. True)] []
     = [AcceleratorAlign [7], HostFindBreakingPoints [7]]
   \<and> count_list (concat (map handled
         (find_overlap_breaking_points [7::nat] [fixed_batch 1000 (\<lambda>ov. True)] []))) 7 = 2"
  by (simp add: find_overlap_breaking_points_def run_aligners.simps start_aligners_def
        active_aligners_def pick_def process_batch_overlaps_step_def fill_next_batch_overlaps_def
        fill_loop.simps fixed_batch_def u32_def sub32_def addOverlap_def add_item_def reset_def
        Let_def hasOverlaps_def)

text \<open>
  Claim C6, amended: no item is dropped, and an item can go through both paths. With an
  aligner batch, every empty aligner batch accepting any overlap and fewer than \<open>2 ^ 32\<close>
  overlaps, the rounds of the accelerator hold each overlap exactly once and the host
  implementation is then called once on the whole collection, so that every overlap is
  processed twice; in a consensus phase that reaches the output pass, the runners write
  distinct window indices, the fallback writes distinct window indices, and every window
  index is written by one of them.
\<close>

theorem every_item_goes_through_its_paths:
  assumes "aligners \<noteq> []" and "\<forall>b \<in> set aligners. \<forall>ov. fits b [] ov"
    and "length overlaps < 2 ^ 32"
    and "status_writes pl batches sched' windows [] = Inr (accelerated, tasks)"
  shows "\<exists>rounds. find_overlap_breaking_points overlaps aligners sched
             = map AcceleratorAlign rounds @ [HostFindBreakingPoints overlaps]
           \<and> mset (concat rounds) = mset overlaps \<and> [] \<notin> set rounds
           \<and> mset (concat (map handled (find_overlap_breaking_points overlaps aligners sched)))
               = mset overlaps + mset overlaps
           \<and> distinct accelerated \<and> distinct tasks
           \<and> set accelerated \<union> set tasks = {0..<length windows}"
proof -
  define rounds where "rounds = aligned (run_aligners overlaps sched (start_aligners aligners))"
  have f: "find_overlap_breaking_points overlaps aligners sched
             = map AcceleratorAlign rounds @ [HostFindBreakingPoints overlaps]"
    by (simp add: find_overlap_breaking_points_def rounds_def)
  from run_aligners_covers [OF assms(1-3), of sched]
  have c: "mset (concat rounds) = mset overlaps" "[] \<notin> set rounds"
    by (simp_all add: rounds_def)
  have h: "concat (map handled (map AcceleratorAlign rounds)) = concat rounds"
    by (induction rounds) simp_all
  from status_writes_cover [OF assms(4)]
  have w: "distinct accelerated" "distinct tasks"
    "set accelerated \<union> set tasks = {0..<length windows}"
    by simp_all
  show ?thesis
    using f c h w by (intro exI [of _ rounds]) (simp add: c(1))
qed

theorem every_item_goes_through_its_paths_witness:
  "example_aligners \<noteq> [] \<and> length example_overlaps < 2 ^ 32
   \<and> status_writes example_pool example_batches [1, 0, 1] twenty_windows []
        = Inr ([8, 9, 10, 11, 12, 13, 14, 15, 16, 17, 18, 19, 0, 1, 2, 3, 4, 5, 6, 7],
               [0, 1, 2, 3, 4, 5, 6, 7])
   \<and> find_overlap_breaking_points example_overlaps example_aligners [1, 0]
        = [AcceleratorAlign [30, 40], AcceleratorAlign [50], AcceleratorAlign [10, 20],
           HostFindBreakingPoints [10, 20, 30, 40, 50]]
   \<and> mset (concat (map handled (find_overlap_breaking_points example_overlaps example_aligners [1, 0])))
        = mset example_overlaps + mset example_overlaps"
proof -
  have a: "example_aligners \<noteq> []" by (simp add: example_aligners_def)
  have b: "\<forall>b \<in> set example_aligners. \<forall>ov. fits b [] ov"
    by (simp add: example_aligners_def fixed_batch_def)
  have c: "length example_overlaps < 2 ^ 32" by (simp add: example_overlaps_def)
  have e: "find_overlap_breaking_points example_overlaps example_aligners [1, 0]
        = [AcceleratorAlign [30, 40], AcceleratorAlign [50], AcceleratorAlign [10, 20],
           HostFindBreakingPoints [10, 20, 30, 40, 50]]"
    by (simp add: align_eval example_overlaps_def example_aligners_def)
  from every_item_goes_through_its_paths [OF a b c example_status_writes, of "[1, 0]"]
  have "mset (concat (map handled (find_overlap_breaking_points example_overlaps example_aligners [1, 0])))
        = mset example_overlaps + mset example_overlaps"
    by (elim exE conjE)
  note m = this
  show ?thesis by (intro conjI a c example_status_writes e m)
qed

text \<open>
  Claim C7: the fillers hand out the windows in index order. In every run of the
  accelerator phase, under every schedule, the ranges returned by \<^verbatim>\<open>fill_next_batch\<close>, in
  the order of the calls, start at 0, each starts where the one before ended, none ends
  before it starts, and the last ends at the shared index.
\<close>

theorem returned_ranges_in_index_order:
  assumes "accelerator_phase ws batches sched status_before = Inr s"
  shows "chain 0 (returned_ranges s) (next_window_index s)
         \<and> (\<forall>k<length (returned_ranges s). fst (returned_ranges s ! k) \<le> snd (returned_ranges s ! k))
         \<and> (\<forall>k. Suc k < length (returned_ranges s)
                \<longrightarrow> fst (returned_ranges s ! Suc k) = snd (returned_ranges s ! k))
         \<and> (returned_ranges s \<noteq> []
                \<longrightarrow> fst (hd (returned_ranges s)) = 0
                    \<and> snd (last (returned_ranges s)) = next_window_index s)"
  using accelerator_phase_chain [OF assms] chain_nth by blast

theorem returned_ranges_in_index_order_witness:
  "\<exists>s. accelerator_phase twenty_windows example_batches [1, 0, 1] [] = Inr s
      \<and> returned_ranges s = [(0, 8), (8, 16), (16, 20), (20, 20), (20, 20)]
      \<and> chain 0 (returned_ranges s) (next_window_index s)"
proof -
  from example_run obtain s where
    s: "accelerator_phase twenty_windows example_batches [1, 0, 1] [] = Inr s"
       "returned_ranges s = [(0, 8), (8, 16), (16, 20), (20, 20), (20, 20)]"
    by blast
  from returned_ranges_in_index_order [OF s(1)] s show ?thesis by blast
qed

text \<open>
  Claim C8, as stated (exactly one record per source sequence), at the ranks
  \<open>[0, 1, 2, 0, 1]\<close>: with dropping requested and no window succeeded, the pass over the
  two source sequences emits no record at all.
\<close>

theorem assemble_no_record_for_dropped_counterexample:
  "assemble example_polisher True five_windows [False, False, False, False, False] [] = Inr []"
  by (simp add: assemble_def assemble_loop.simps five_windows_def example_window_def
        close_out_def polished_ratio_def u32_def)

text \<open>
  Claim C8, amended: the output pass goes once over the windows in their order, closes
  the current source sequence exactly where the next window has rank 0 or the window is
  the last one (the runs), and emits, in order, one record for each source sequence that
  is not dropped (dropping requested and none of its windows succeeded); without dropping
  that is exactly one record per source sequence. The witness has the ranks
  \<open>[0, 1, 2, 0, 1]\<close>: two records, the second with the text of the last two windows only.
\<close>

theorem assemble_record_per_sequence:
  assumes "length ws \<le> length st" and "length ws < 2 ^ 32"
  shows "\<exists>out. assemble p dr ws st [] = Inr out
           \<and> out = map (spec_record p) (filter (spec_kept dr) (runs (zip ws st)))
           \<and> length out = length (filter (spec_kept dr) (runs (zip ws st)))
           \<and> (\<not> dr \<longrightarrow> length out = length (runs (zip ws st)))
           \<and> concat (runs (zip ws st)) = zip ws st"
  using assemble_runs [OF assms, of p dr "[]"]
  by (simp add: concat_spec_emit concat_runs spec_kept_def)

theorem assemble_record_per_sequence_witness:
  "length five_windows \<le> length [True, False, True, False, False]
   \<and> length five_windows < 2 ^ 32
   \<and> map rank five_windows = [0, 1, 2, 0, 1]
   \<and> (\<exists>out. assemble example_polisher False five_windows [True, False, True, False, False] [] = Inr out
          \<and> length out = 2 \<and> data (out ! 1) = ''TN'')"
proof -
  have a: "length five_windows \<le> length [True, False, True, False, False]"
    by (simp add: five_windows_def)
  have b: "length five_windows < 2 ^ 32"
    by (simp add: five_windows_def)
  have r: "runs (zip five_windows [True, False, True, False, False])
       = [[(example_window 0 0 ''A'', True), (example_window 0 (Suc 0) ''C'', False),
           (example_window 0 2 ''G'', True)],
          [(example_window (Suc 0) 0 ''T'', False), (example_window (Suc 0) (Suc 0) ''N'', False)]]"
    by (simp add: five_windows_def example_window_def)
  have d: "data (spec_record example_polisher
             [(example_window (Suc 0) 0 ''T'', False), (example_window (Suc 0) (Suc 0) ''N'', False)])
           = ''TN''"
    by (simp add: spec_record_def createSequence_def spec_text_def example_window_def)
  have m: "map rank five_windows = [0, 1, 2, 0, 1]"
    by (simp add: five_windows_def example_window_def)
  show ?thesis
    using assemble_record_per_sequence [OF a b, of example_polisher False] a b m
    unfolding r by (auto simp: d)
qed

text \<open>
  Claim C9: the record of a source sequence carries the ratio of the number of its
  succeeded windows to the rank of its last window plus one (\<open>spec_ratio\<close>, inside
  \<open>spec_record\<close>), and a sequence whose ratio is not positive yields no record when
  dropping was requested. The witness has a sequence of three windows of which two
  succeeded, ratio \<open>2 / 3\<close>, and a sequence with no success, dropped.
\<close>

theorem assemble_polished_ratio:
  assumes "length ws \<le> length st" and "length ws < 2 ^ 32"
  shows "assemble p dr ws st dst =
           Inr (dst @ concat (map (\<lambda>g. if dr \<and> spec_ratio g \<le> 0 then [] else [spec_record p g])
                                  (runs (zip ws st))))"
proof -
  have "spec_emit p dr = (\<lambda>g. if dr \<and> spec_ratio g \<le> 0 then [] else [spec_record p g])"
    by (rule ext) (simp add: spec_emit_def)
  with assemble_runs [OF assms, of p dr dst] show ?thesis by simp
qed

theorem assemble_polished_ratio_witness:
  "length four_windows \<le> length [True, False, True, False]
   \<and> length four_windows < 2 ^ 32
   \<and> runs (zip four_windows [True, False, True, False])
       = [[(example_window 0 0 ''A'', True), (example_window 0 (Suc 0) ''C'', False),
           (example_window 0 2 ''G'', True)],
          [(example_window (Suc 0) 0 ''T'', False)]]
   \<and> spec_ratio [(example_window 0 0 ''A'', True), (example_window 0 (Suc 0) ''C'', False),
                  (example_window 0 2 ''G'', True)] = 2 / 3
   \<and> spec_ratio [(example_window (Suc 0) 0 ''T'', False)] = 0
   \<and> assemble example_polisher True four_windows [True, False, True, False] []
       = Inr [createSequence (''contig0 LN:i:3 RC:i:7 XC:f:'' @ double_to_string example_polisher (2 / 3))
                ''ACG'']"
proof -
  have a: "length four_windows \<le> length [True, False, True, False]"
    by (simp add: four_windows_def)
  have b: "length four_windows < 2 ^ 32"
    by (simp add: four_windows_def)
  have r: "runs (zip four_windows [True, False, True, False])
       = [[(example_window 0 0 ''A'', True), (example_window 0 (Suc 0) ''C'', False),
           (example_window 0 2 ''G'', True)],
          [(example_window (Suc 0) 0 ''T'', False)]]"
    by (simp add: four_windows_def example_window_def)
  have q1: "spec_ratio [(example_window 0 0 ''A'', True), (example_window 0 (Suc 0) ''C'', False),
                  (example_window 0 2 ''G'', True)] = 2 / 3"
    by (simp add: spec_ratio_def spec_succeeded_def example_window_def)
  have q2: "spec_ratio [(example_window (Suc 0) 0 ''T'', False)] = 0"
    by (simp add: spec_ratio_def spec_succeeded_def example_window_def)
  have rec: "spec_record example_polisher [(example_window 0 0 ''A'', True), (example_window 0 (Suc 0) ''C'', False),
                  (example_window 0 2 ''G'', True)]
       = createSequence (''contig0 LN:i:3 RC:i:7 XC:f:'' @ double_to_string example_polisher (2 / 3)) ''ACG''"
    unfolding spec_record_def q1
    by (simp add: spec_text_def tags_def example_window_def example_polisher_def
          to_string.simps digit_char_def)
  show ?thesis
    using assemble_polished_ratio [OF a b, of example_polisher True "[]"] a b
    unfolding r by (simp add: q1 q2 rec)
qed

text \<open>
  Claim C10: the data of a record is the text of all windows of its source sequence,
  failed ones included (\<open>spec_text\<close> does not look at the flags); the flags only
  decide which sequences are kept. Without dropping, two status vectors give the same
  data, and the data of all records together is the text of all windows.
\<close>

theorem assemble_text_unconditional:
  assumes "length ws \<le> length st" and "length ws \<le> length st'" and "length ws < 2 ^ 32"
  shows "\<exists>out out'. assemble p dr ws st [] = Inr out
           \<and> map data out = map spec_text (filter (spec_kept dr) (runs (zip ws st)))
           \<and> assemble p False ws st' [] = Inr out'
           \<and> map data out' = map spec_text (runs (zip ws st))
           \<and> concat (map data out') = concat (map consensus ws)"
proof -
  have d: "data \<circ> spec_record p = spec_text"
    by (rule ext) (simp add: spec_record_def createSequence_def)
  have m: "map fst (zip ws st') = map fst (zip ws st)"
    using assms(1,2) by (simp add: map_fst_zip_take min_def)
  have "map spec_text (runs (zip ws st')) = map (concat \<circ> map consensus) (map (map fst) (runs (zip ws st')))"
    by (simp add: spec_text_def comp_def)
  also have "\<dots> = map (concat \<circ> map consensus) (map (map fst) (runs (zip ws st)))"
    using runs_map_fst [OF m] by simp
  also have "\<dots> = map spec_text (runs (zip ws st))"
    by (simp add: spec_text_def comp_def)
  finally have t: "map spec_text (runs (zip ws st')) = map spec_text (runs (zip ws st))" .
  have c: "concat (map spec_text (runs (zip ws st))) = concat (map consensus ws)"
    using assms(1) by (simp add: concat_spec_text_runs map_fst_zip_take min_def flip: map_map)
  show ?thesis
    using assemble_runs [OF assms(1,3), of p dr "[]"] assemble_runs [OF assms(2,3), of p False "[]"]
    by (simp add: concat_spec_emit d t c spec_kept_def)
qed

theorem assemble_text_unconditional_witness:
  "length five_windows \<le> length [True, False, True, False, False]
   \<and> length five_windows \<le> length [False, False, False, False, False]
   \<and> length five_windows < 2 ^ 32
   \<and> (\<exists>out out'. assemble example_polisher True five_windows [True, False, True, False, False] [] = Inr out
          \<and> map data out = [''ACG'']
          \<and> assemble example_polisher False five_windows [False, False, False, False, False] [] = Inr out'
          \<and> map data out' = [''ACG'', ''TN''])"
proof -
  have a: "length five_windows \<le> length [True, False, True, False, False]"
    by (simp add: five_windows_def)
  have a': "length five_windows \<le> length [False, False, False, False, False]"
    by (simp add: five_windows_def)
  have b: "length five_windows < 2 ^ 32"
    by (simp add: five_windows_def)
  have r: "map spec_text (runs (zip five_windows [True, False, True, False, False])) = [''ACG'', ''TN'']"
    by (simp add: five_windows_def example_window_def spec_text_def)
  have k: "map spec_text (filter (spec_kept True) (runs (zip five_windows [True, False, True, False, False]))) = [''ACG'']"
    by (simp add: five_windows_def example_window_def spec_text_def spec_kept_def spec_succeeded_def)
  show ?thesis
    using assemble_text_unconditional [OF a a' b, of example_polisher True] a a' b
    unfolding r k by auto
qed

end